theory Spec2Isabelle
  imports Main "HOL-Library.List_Lexorder"
begin

section \<open>Strings, characters and the library functions used by app.py\<close>

text \<open>
  A Python \<open>str\<close> is a sequence of Unicode code points, so a string is a list of
  natural numbers. Python compares strings code point by code point, which is the
  lexicographic order on lists (\<open>HOL-Library.List_Lexorder\<close>).
  \<open>cps\<close> only serves to write literals: \<open>cps ''cat''\<close> is the string \<open>"cat"\<close>.
\<close>

type_synonym pystr = "nat list"

definition cps :: "string \<Rightarrow> pystr" where
  "cps s = map of_char s"

text \<open>
  \<open>str.isspace\<close> on one character, which is also the class \<open>\s\<close> of \<open>re\<close> on
  \<open>str\<close> patterns: U+0009..U+000D, U+001C..U+0020, U+0085, U+00A0, U+1680,
  U+2000..U+200A, U+2028, U+2029, U+202F, U+205F, U+3000.
\<close>

definition isspace :: "nat \<Rightarrow> bool" where
  "isspace c \<longleftrightarrow>
     (9 \<le> c \<and> c \<le> 13) \<or> (28 \<le> c \<and> c \<le> 32) \<or> c = 133 \<or> c = 160 \<or> c = 5760 \<or>
     (8192 \<le> c \<and> c \<le> 8202) \<or> c = 8232 \<or> c = 8233 \<or> c = 8239 \<or> c = 8287 \<or>
     c = 12288"

text \<open>The character class \<open>[0-9A-Za-z\<dots>]\<close> of both token patterns; its last range is
  the Hangul syllables U+AC00..U+D7A3.\<close>

definition hangul :: "nat \<Rightarrow> bool" where
  "hangul c \<longleftrightarrow> 44032 \<le> c \<and> c \<le> 55203"

definition alnum :: "nat \<Rightarrow> bool" where
  "alnum c \<longleftrightarrow> (48 \<le> c \<and> c \<le> 57) \<or> (65 \<le> c \<and> c \<le> 90) \<or> (97 \<le> c \<and> c \<le> 122) \<or> hangul c"

text \<open>The negated class of \<open>token_pattern\<close>: neither whitespace nor in the alphabet.\<close>

definition punct :: "nat \<Rightarrow> bool" where
  "punct c \<longleftrightarrow> \<not> isspace c \<and> \<not> alnum c"

text \<open>
  \<open>str.lower\<close>. On ASCII it maps \<open>A..Z\<close> to \<open>a..z\<close> and leaves the rest; Hangul
  syllables have no case. For every other code point Python consults the Unicode
  character database, which is not part of the repository: it is the parameter
  \<open>lc\<close>, given the characters before, the character, and the characters after it
  (capital sigma depends on its neighbours). One character becomes one or more
  characters, never none: the table gives the first one and the rest.
\<close>

type_synonym lower_table = "pystr \<Rightarrow> nat \<Rightarrow> pystr \<Rightarrow> nat \<times> pystr"

definition lower_char :: "lower_table \<Rightarrow> pystr \<Rightarrow> nat \<Rightarrow> pystr \<Rightarrow> pystr" where
  "lower_char lc pre c post =
     (if 65 \<le> c \<and> c \<le> 90 then [c + 32]
      else if c < 128 \<or> hangul c then [c]
      else (case lc pre c post of (x, xs) \<Rightarrow> x # xs))"

fun lower_from :: "lower_table \<Rightarrow> pystr \<Rightarrow> pystr \<Rightarrow> pystr" where
  "lower_from lc pre [] = []"
| "lower_from lc pre (c # post) =
     lower_char lc pre c post @ lower_from lc (pre @ [c]) post"

definition lower :: "lower_table \<Rightarrow> pystr \<Rightarrow> pystr" where
  "lower lc s = lower_from lc [] s"

text \<open>A table that leaves every character as it is, for evaluating examples.\<close>

definition lc_id :: lower_table where
  "lc_id pre c post = (c, [])"

text \<open>\<open>str.strip()\<close>: whitespace removed at both ends.\<close>

definition strip :: "pystr \<Rightarrow> pystr" where
  "strip s = rev (dropWhile isspace (rev (dropWhile isspace s)))"

subsection \<open>The three regular expressions\<close>

text \<open>
  \<open>re.findall(r"[0-9A-Za-z\<dots>]+", s)\<close>: scanning from the left, a character of the
  class starts a match, the greedy \<open>+\<close> takes the whole run, and the scan goes on
  after the match; any other character is skipped.
\<close>

function findall_plain :: "pystr \<Rightarrow> pystr list" where
  "findall_plain [] = []"
| "findall_plain (c # cs) =
     (if alnum c then (c # takeWhile alnum cs) # findall_plain (dropWhile alnum cs)
      else findall_plain cs)"
  by pat_completeness auto
termination
  by (relation "measure length") (auto simp: length_dropWhile_le less_Suc_eq_le)

text \<open>
  The group \<open>(?:[^\s0-9A-Za-z\<dots>]+[0-9A-Za-z\<dots>]+)*\<close> of \<open>token_pattern\<close>, matched at
  the start of \<open>s\<close>: the matched text and what is left. One round takes the whole run
  of \<open>punct\<close> characters and needs an alphabet character right after it; giving back
  part of the run cannot help, since the character after a shorter run is a
  \<open>punct\<close> character. The star stops at the first round that fails.
\<close>

function match_group :: "pystr \<Rightarrow> pystr \<times> pystr" where
  "match_group s =
     (let r = dropWhile punct s in
      if takeWhile punct s \<noteq> [] \<and> r \<noteq> [] \<and> alnum (hd r)
      then (case match_group (dropWhile alnum r) of
              (m, rest) \<Rightarrow> (takeWhile punct s @ takeWhile alnum r @ m, rest))
      else ([], s))"
  by pat_completeness auto
termination
proof (relation "measure length")
  show "wf (measure length)" by simp
next
  fix s r :: pystr
  assume r: "r = dropWhile punct s"
    and c: "takeWhile punct s \<noteq> [] \<and> r \<noteq> [] \<and> alnum (hd r)"
  have "length (dropWhile alnum r) \<le> length r"
    by (rule length_dropWhile_le)
  moreover have "length r < length s"
  proof -
    have "length (takeWhile punct s) + length (dropWhile punct s) = length s"
      by (metis length_append takeWhile_dropWhile_id)
    with c r show ?thesis by (cases "takeWhile punct s") auto
  qed
  ultimately show "(dropWhile alnum r, s) \<in> measure length" by simp
qed

declare match_group.simps [simp del]

text \<open>
  \<open>re.findall(token_pattern, s)\<close>: an alphabet character starts a match, made of the
  run of alphabet characters and then the group above; the scan goes on after it.
\<close>

function findall_token_pattern :: "pystr \<Rightarrow> pystr list" where
  "findall_token_pattern [] = []"
| "findall_token_pattern (c # cs) =
     (if alnum c
      then (case match_group (dropWhile alnum cs) of
              (m, rest) \<Rightarrow> (c # takeWhile alnum cs @ m) # findall_token_pattern rest)
      else findall_token_pattern cs)"
  by pat_completeness auto
termination
proof -
  have len: "length (snd (match_group s)) \<le> length s" for s
  proof (induction s rule: match_group.induct)
    case (1 s)
    show ?case
    proof (cases "takeWhile punct s \<noteq> [] \<and> dropWhile punct s \<noteq> []
                    \<and> alnum (hd (dropWhile punct s))")
      case True
      then have "length (snd (match_group (dropWhile alnum (dropWhile punct s))))
                   \<le> length (dropWhile alnum (dropWhile punct s))"
        using "1.IH" by simp
      also have "\<dots> \<le> length (dropWhile punct s)" by (rule length_dropWhile_le)
      also have "\<dots> \<le> length s" by (rule length_dropWhile_le)
      finally show ?thesis
        using True by (subst match_group.simps) (auto simp: Let_def split: prod.splits)
    next
      case False
      then show ?thesis by (subst match_group.simps) (auto simp: Let_def)
    qed
  qed
  show ?thesis
    apply (relation "measure length")
    subgoal by simp
    subgoal for c cs
      using len [of "dropWhile alnum cs"] length_dropWhile_le [of alnum cs]
      by (cases "match_group (dropWhile alnum cs)") auto
    subgoal by simp
    done
qed

text \<open>
  \<open>re.findall(rf"(?<!\S){re.escape(term)}(?!\S)", s)\<close> for a non-empty \<open>term\<close>
  (the source reaches it only after \<open>if not term: continue\<close>). \<open>re.escape\<close> makes
  the term a literal. The flag \<open>b\<close> says that the lookbehind succeeds at the current
  position: the scan is at the start of the text or the character before is
  whitespace. A match needs the term at this position and, for the lookahead, the end
  of the text or a whitespace character after it; the scan then goes on after the
  match, where the character before is the last one of the term. Otherwise it moves
  one character on.
\<close>

definition lookahead_ok :: "pystr \<Rightarrow> bool" where
  "lookahead_ok s = (case s of [] \<Rightarrow> True | d # _ \<Rightarrow> isspace d)"

fun findall_phrase_pattern :: "pystr \<Rightarrow> bool \<Rightarrow> pystr \<Rightarrow> pystr list" where
  "findall_phrase_pattern term b [] = []"
| "findall_phrase_pattern term b (c # cs) =
     (if b \<and> take (length term) (c # cs) = term \<and> lookahead_ok (drop (length term) (c # cs))
      then term # findall_phrase_pattern term (isspace (last term)) (drop (length term - 1) cs)
      else findall_phrase_pattern term (isspace c) cs)"

section \<open>Dictionaries and exceptions\<close>

text \<open>
  A \<open>dict\<close> keeps its keys in insertion order, so it is an association list with
  distinct keys. \<open>dict_set\<close> is \<open>d[k] = v\<close>: an existing key keeps its place.
  \<open>dict_get\<close> is \<open>d.get(k, dflt)\<close>.
\<close>

type_synonym 'v pydict = "(pystr \<times> 'v) list"

fun dict_set :: "pystr \<Rightarrow> 'v \<Rightarrow> 'v pydict \<Rightarrow> 'v pydict" where
  "dict_set k v [] = [(k, v)]"
| "dict_set k v ((k', v') # d) =
     (if k' = k then (k, v) # d else (k', v') # dict_set k v d)"

definition dict_get :: "'v pydict \<Rightarrow> pystr \<Rightarrow> 'v \<Rightarrow> 'v" where
  "dict_get d k dflt = (case map_of d k of None \<Rightarrow> dflt | Some v \<Rightarrow> v)"

text \<open>\<open>Counter(tokens)\<close>: one pass over the tokens, each adding one to its entry.\<close>

definition counter_add :: "pystr \<Rightarrow> nat pydict \<Rightarrow> nat pydict" where
  "counter_add w c = dict_set w (dict_get c w 0 + 1) c"

definition Counter :: "pystr list \<Rightarrow> nat pydict" where
  "Counter tokens = foldl (\<lambda>c w. counter_add w c) [] tokens"

text \<open>The exceptions the library calls of \<open>build_result\<close> can raise: \<open>max\<close> of an
  empty sequence, and \<open>d[k]\<close> for a key that is not there.\<close>

datatype py_exception = ValueError | KeyError

fun py_max :: "nat list \<Rightarrow> py_exception + nat" where
  "py_max [] = Inl ValueError"
| "py_max (x # xs) = Inr (foldl max x xs)"

text \<open>The comprehension \<open>{k: d[k] for k in keys}\<close>, filling \<open>acc\<close> key by key.\<close>

fun dict_of_keys :: "'v pydict \<Rightarrow> pystr list \<Rightarrow> 'v pydict \<Rightarrow> py_exception + 'v pydict" where
  "dict_of_keys d [] acc = Inr acc"
| "dict_of_keys d (k # ks) acc =
     (case map_of d k of
        None \<Rightarrow> Inl KeyError
      | Some v \<Rightarrow> dict_of_keys d ks (dict_set k v acc))"

section \<open>The functions of app.py\<close>

text \<open>
  The loop of \<open>count_terms_in_text\<close> over \<open>terms\<close>, with the dictionary \<open>out\<close> it
  fills. The terms are strings (\<open>List[str]\<close>), for which \<open>original or ""\<close> is
  \<open>original\<close>; \<open>" " in term\<close> looks for the space character U+0020.
\<close>

fun terms_loop :: "lower_table \<Rightarrow> pystr \<Rightarrow> nat pydict \<Rightarrow> pystr list \<Rightarrow> nat pydict \<Rightarrow> nat pydict" where
  "terms_loop lc lower_text counter [] out = out"
| "terms_loop lc lower_text counter (original # terms) out =
     (let term = lower lc (strip original) in
      if term = [] then terms_loop lc lower_text counter terms out
      else if 32 \<in> set term
      then terms_loop lc lower_text counter terms
             (dict_set original (length (findall_phrase_pattern term True lower_text)) out)
      else terms_loop lc lower_text counter terms
             (dict_set original (dict_get counter term 0) out))"

definition count_terms_in_text :: "lower_table \<Rightarrow> pystr \<Rightarrow> pystr list \<Rightarrow> nat pydict" where
  "count_terms_in_text lc text terms =
     (let lower_text = lower lc text;
          tokens = findall_token_pattern lower_text;
          counter = Counter tokens
      in terms_loop lc lower_text counter terms [])"

definition count_top_words :: "lower_table \<Rightarrow> pystr \<Rightarrow> py_exception + nat pydict" where
  "count_top_words lc text =
     (let tokens = findall_plain (lower lc text) in
      if tokens = [] then Inr []
      else let c = Counter tokens in
        case py_max (map snd c) of
          Inl e \<Rightarrow> Inl e
        | Inr max_cnt \<Rightarrow> Inr (filter (\<lambda>(w, cnt). cnt = max_cnt) c))"

text \<open>The result of \<open>build_result\<close>: the dictionary \<open>{"error": message}\<close>, or a
  dictionary of counts. \<open>no_chars\<close> is the message of the source, eight code points
  (U+BB38 U+C790 U+AC00 U+0020 U+C5C6 U+C2B5 U+B2C8 U+B2E4).\<close>

datatype result = ErrorResult pystr | CountMap "nat pydict"

definition no_chars :: pystr where
  "no_chars = [47928, 51088, 44032, 32, 50630, 49845, 45768, 45796]"

text \<open>
  \<open>terms\<close> is \<open>Optional[List[str]]\<close>. In the test \<open>terms and any(\<dots>)\<close> both \<open>None\<close>
  and the empty list count as false, and \<open>any\<close> of an empty list is false as well:
  \<open>truthy_terms\<close> gives the list the test and the term branch work on.
\<close>

definition truthy_terms :: "pystr list option \<Rightarrow> pystr list" where
  "truthy_terms terms = (case terms of None \<Rightarrow> [] | Some ts \<Rightarrow> ts)"

definition build_result :: "lower_table \<Rightarrow> pystr \<Rightarrow> pystr list option \<Rightarrow> py_exception + result" where
  "build_result lc text terms =
     (if strip text = [] then Inr (ErrorResult no_chars)
      else if truthy_terms terms \<noteq> [] \<and> list_ex (\<lambda>t. strip t \<noteq> []) (truthy_terms terms)
      then
        (let counts = count_terms_in_text lc text (truthy_terms terms) in
         if counts = [] then Inr (ErrorResult no_chars)
         else case py_max (map snd counts) of
           Inl e \<Rightarrow> Inl e
         | Inr max_cnt \<Rightarrow>
             (let tied_keys = sort (map fst (filter (\<lambda>(k, v). v = max_cnt) counts)) in
              map_sum id CountMap (dict_of_keys counts tied_keys [])))
      else
        (case count_top_words lc text of
           Inl e \<Rightarrow> Inl e
         | Inr top' \<Rightarrow>
             if top' = [] then Inr (ErrorResult no_chars)
             else (let ordered = sort (map fst top') in
                   map_sum id CountMap (dict_of_keys top' ordered []))))"

section \<open>Auxiliary notions for stating the properties\<close>

text \<open>
  What the last lines of both branches of \<open>build_result\<close> compute from a dictionary of
  counts: the keys whose count is the maximum, in ascending order, each with that
  count.
\<close>

definition tied_max :: "nat pydict \<Rightarrow> nat pydict" where
  "tied_max d =
     (let M = Max (snd ` set d) in
      map (\<lambda>k. (k, M)) (sort (map fst (filter (\<lambda>(k, v). v = M) d))))"

text \<open>
  The phrase count in the specification's words: an occurrence of the term at
  position \<open>i\<close> of the text is standalone when it is preceded by the start of the text
  or a whitespace character and followed by the end of the text or a whitespace
  character; occurrences do not overlap when the earlier one ends before the later
  one starts; the count is the largest number of standalone occurrences that can be
  taken without overlap.
\<close>

definition standalone_at :: "pystr \<Rightarrow> pystr \<Rightarrow> nat \<Rightarrow> bool" where
  "standalone_at term txt i \<longleftrightarrow>
     i + length term \<le> length txt \<and> take (length term) (drop i txt) = term \<and>
     (i = 0 \<or> isspace (txt ! (i - 1))) \<and>
     (i + length term = length txt \<or> isspace (txt ! (i + length term)))"

definition non_overlapping :: "nat \<Rightarrow> nat set \<Rightarrow> bool" where
  "non_overlapping n S \<longleftrightarrow> (\<forall>i \<in> S. \<forall>j \<in> S. i < j \<longrightarrow> i + n \<le> j)"

definition phrase_count_spec :: "pystr \<Rightarrow> pystr \<Rightarrow> nat" where
  "phrase_count_spec term txt =
     Max (card ` {S. S \<subseteq> {i. standalone_at term txt i} \<and> non_overlapping (length term) S})"

text \<open>
  The same occurrences seen from the middle of a scan: \<open>b\<close> stands for the lookbehind
  at position \<open>0\<close> of what is left of the text.
\<close>

definition occurs_at :: "pystr \<Rightarrow> bool \<Rightarrow> pystr \<Rightarrow> nat \<Rightarrow> bool" where
  "occurs_at term b txt i \<longleftrightarrow>
     i + length term \<le> length txt \<and> take (length term) (drop i txt) = term \<and>
     (if i = 0 then b else isspace (txt ! (i - 1))) \<and>
     lookahead_ok (drop (i + length term) txt)"

text \<open>
  The plain-word grammar in the specification's words: every character outside the
  alphabet is a separator and is discarded, and the tokens are the non-empty pieces
  between separators, that is, the maximal runs of alphabet characters.
\<close>

fun split_on :: "(nat \<Rightarrow> bool) \<Rightarrow> pystr \<Rightarrow> pystr list" where
  "split_on sep [] = [[]]"
| "split_on sep (c # cs) =
     (if sep c then [] # split_on sep cs
      else (case split_on sep cs of [] \<Rightarrow> [[c]] | w # ws \<Rightarrow> (c # w) # ws))"

definition plain_tokens_spec :: "pystr \<Rightarrow> pystr list" where
  "plain_tokens_spec s = filter (\<lambda>w. w \<noteq> []) (split_on (\<lambda>c. \<not> alnum c) s)"

text \<open>
  The compound-token grammar in the specification's words: whitespace always
  separates tokens; in a piece between whitespace, the punctuation between alphabet
  blocks is part of the token and the punctuation at the two ends of the piece is
  not. So the token of a piece is the piece without the non-alphabet characters at
  its two ends, and a piece without alphabet characters gives no token.
\<close>

definition trim_non_alnum :: "pystr \<Rightarrow> pystr" where
  "trim_non_alnum w =
     rev (dropWhile (\<lambda>c. \<not> alnum c) (rev (dropWhile (\<lambda>c. \<not> alnum c) w)))"

definition compound_tokens_spec :: "pystr \<Rightarrow> pystr list" where
  "compound_tokens_spec s =
     filter (\<lambda>w. w \<noteq> []) (map trim_non_alnum (split_on isspace s))"

section \<open>Properties of the library functions\<close>

lemma alnum_not_space: "alnum c \<Longrightarrow> \<not> isspace c"
  by (auto simp: alnum_def isspace_def hangul_def)

lemma lower_Nil: "lower lc [] = []"
  by (simp add: lower_def)

lemma lower_char_nonempty: "lower_char lc pre c post \<noteq> []"
  by (simp add: lower_char_def split: prod.splits)

lemma lower_from_empty_iff: "lower_from lc pre s = [] \<longleftrightarrow> s = []"
  by (cases s) (simp_all add: lower_char_nonempty)

lemma lower_empty_iff: "lower lc s = [] \<longleftrightarrow> s = []"
  by (simp add: lower_def lower_from_empty_iff)

lemma lower_char_alnum: "alnum c \<Longrightarrow> \<exists>d \<in> set (lower_char lc pre c post). alnum d"
  by (auto simp: lower_char_def alnum_def hangul_def)

lemma lower_from_alnum:
  "\<exists>c \<in> set s. alnum c \<Longrightarrow> \<exists>d \<in> set (lower_from lc pre s). alnum d"
proof (induction s arbitrary: pre)
  case Nil
  then show ?case by simp
next
  case (Cons a s)
  show ?case
  proof (cases "alnum a")
    case True
    from lower_char_alnum [OF this, of lc pre s] show ?thesis by auto
  next
    case False
    with Cons.prems have "\<exists>c \<in> set s. alnum c" by simp
    from Cons.IH [OF this, of "pre @ [a]"] show ?thesis by auto
  qed
qed

lemma lower_alnum: "\<exists>c \<in> set s. alnum c \<Longrightarrow> \<exists>d \<in> set (lower lc s). alnum d"
  by (simp add: lower_def lower_from_alnum)

lemma dropWhile_all_iff: "(\<forall>x \<in> set (dropWhile P s). P x) \<longleftrightarrow> (\<forall>x \<in> set s. P x)"
proof
  assume a: "\<forall>x \<in> set (dropWhile P s). P x"
  have "dropWhile P s = []"
  proof (rule ccontr)
    assume n: "dropWhile P s \<noteq> []"
    then have "\<not> P (hd (dropWhile P s))" by (rule hd_dropWhile)
    moreover from n have "hd (dropWhile P s) \<in> set (dropWhile P s)" by simp
    ultimately show False using a by blast
  qed
  then show "\<forall>x \<in> set s. P x" by (simp add: dropWhile_eq_Nil_conv)
next
  assume "\<forall>x \<in> set s. P x"
  then show "\<forall>x \<in> set (dropWhile P s). P x" by (auto dest: set_dropWhileD)
qed

lemma strip_empty_iff: "strip s = [] \<longleftrightarrow> (\<forall>c \<in> set s. isspace c)"
  by (simp add: strip_def dropWhile_eq_Nil_conv dropWhile_all_iff)

lemma strip_alnum: "\<exists>c \<in> set s. alnum c \<Longrightarrow> strip s \<noteq> []"
  by (auto simp: strip_empty_iff dest: alnum_not_space)

lemma map_of_dict_set: "map_of (dict_set k v d) = (map_of d)(k \<mapsto> v)"
  by (induction d) (auto simp: fun_eq_iff)

lemma keys_dict_set:
  "map fst (dict_set k v d) = (if k \<in> fst ` set d then map fst d else map fst d @ [k])"
  by (induction d) (force simp: image_iff)+

lemma distinct_dict_set: "distinct (map fst d) \<Longrightarrow> distinct (map fst (dict_set k v d))"
  by (simp add: keys_dict_set)

lemma dict_set_new: "k \<notin> fst ` set d \<Longrightarrow> dict_set k v d = d @ [(k, v)]"
  by (induction d) auto

lemma dict_set_same: "map_of d k = Some v \<Longrightarrow> dict_set k v d = d"
  by (induction d) (auto split: if_splits)

lemma dict_get_dict_set:
  "dict_get (dict_set k v d) k' dflt = (if k' = k then v else dict_get d k' dflt)"
  by (simp add: dict_get_def map_of_dict_set)

lemma py_max_eq: "py_max xs = (if xs = [] then Inl ValueError else Inr (Max (set xs)))"
proof (cases xs)
  case Nil
  then show ?thesis by simp
next
  case (Cons x ys)
  have "foldl max x ys = fold max ys x"
    by (simp add: foldl_conv_fold max.commute)
  moreover have "Max (set (x # ys)) = fold max ys x"
    by (rule Max.set_eq_fold)
  ultimately show ?thesis using Cons by simp
qed

lemma dict_of_keys_eq:
  "distinct ks \<Longrightarrow> set ks \<inter> fst ` set acc = {} \<Longrightarrow> set ks \<subseteq> fst ` set d \<Longrightarrow>
   dict_of_keys d ks acc = Inr (acc @ map (\<lambda>k. (k, the (map_of d k))) ks)"
proof (induction ks arbitrary: acc)
  case Nil
  then show ?case by simp
next
  case (Cons k ks)
  from Cons.prems obtain v where v: "map_of d k = Some v"
    by (cases "map_of d k") (auto simp: map_of_eq_None_iff)
  have new: "dict_set k v acc = acc @ [(k, v)]"
    using Cons.prems by (intro dict_set_new) auto
  have "dict_of_keys d ks (acc @ [(k, v)])
          = Inr ((acc @ [(k, v)]) @ map (\<lambda>k. (k, the (map_of d k))) ks)"
    using Cons.prems by (intro Cons.IH) auto
  with v new show ?case by simp
qed

section \<open>Counters, the loop over the terms, and the two branches of \<open>build_result\<close>\<close>

lemma counter_fold_map_of:
  "map_of (foldl (\<lambda>c w. counter_add w c) c0 toks) w =
     (if w \<in> set toks \<or> map_of c0 w \<noteq> None
      then Some (dict_get c0 w 0 + count_list toks w) else None)"
proof (induction toks arbitrary: c0)
  case Nil
  then show ?case by (auto simp: dict_get_def)
next
  case (Cons t toks)
  show ?case
    by (simp add: Cons.IH) (auto simp: counter_add_def map_of_dict_set dict_get_def)
qed

lemma counter_fold_distinct:
  "distinct (map fst c0) \<Longrightarrow> distinct (map fst (foldl (\<lambda>c w. counter_add w c) c0 toks))"
  by (induction toks arbitrary: c0) (simp_all add: counter_add_def distinct_dict_set)

lemma Counter_map_of:
  "map_of (Counter toks) w = (if w \<in> set toks then Some (count_list toks w) else None)"
  by (simp add: Counter_def counter_fold_map_of dict_get_def)

lemma Counter_distinct: "distinct (map fst (Counter toks))"
  by (simp add: Counter_def counter_fold_distinct)

lemma Counter_get: "dict_get (Counter toks) w 0 = count_list toks w"
  by (simp add: dict_get_def Counter_map_of count_list_0_iff)

lemma Counter_set: "set (Counter toks) = {(w, n). w \<in> set toks \<and> n = count_list toks w}"
proof -
  have "(w, n) \<in> set (Counter toks) \<longleftrightarrow> map_of (Counter toks) w = Some n" for w n
    using Counter_distinct by (simp add: map_of_eq_Some_iff)
  then show ?thesis by (auto simp: Counter_map_of split: if_splits)
qed

lemma Counter_Nil: "Counter [] = []"
  by (simp add: Counter_def)

lemma Counter_empty_iff: "Counter toks = [] \<longleftrightarrow> toks = []"
proof -
  have "set (Counter toks) = {} \<longleftrightarrow> set toks = {}"
    unfolding Counter_set by auto
  then show ?thesis by simp
qed

lemma terms_loop_map_of:
  "map_of (terms_loop lc lt cn terms out) k =
     (if k \<in> set terms \<and> lower lc (strip k) \<noteq> []
      then Some (if 32 \<in> set (lower lc (strip k))
                 then length (findall_phrase_pattern (lower lc (strip k)) True lt)
                 else dict_get cn (lower lc (strip k)) 0)
      else map_of out k)"
  by (induction terms arbitrary: out) (auto simp: Let_def map_of_dict_set)

lemma terms_loop_distinct:
  "distinct (map fst out) \<Longrightarrow> distinct (map fst (terms_loop lc lt cn terms out))"
  by (induction terms arbitrary: out) (auto simp: Let_def distinct_dict_set)

lemma count_terms_map_of:
  "map_of (count_terms_in_text lc text terms) k =
     (if k \<in> set terms \<and> lower lc (strip k) \<noteq> []
      then Some (if 32 \<in> set (lower lc (strip k))
                 then length (findall_phrase_pattern (lower lc (strip k)) True (lower lc text))
                 else count_list (findall_token_pattern (lower lc text)) (lower lc (strip k)))
      else None)"
  by (simp add: count_terms_in_text_def Let_def terms_loop_map_of Counter_get)

lemma count_terms_distinct: "distinct (map fst (count_terms_in_text lc text terms))"
  by (simp add: count_terms_in_text_def Let_def terms_loop_distinct)

lemma count_terms_keys:
  "fst ` set (count_terms_in_text lc text terms) = {k \<in> set terms. lower lc (strip k) \<noteq> []}"
proof -
  have "fst ` set (count_terms_in_text lc text terms) = dom (map_of (count_terms_in_text lc text terms))"
    by (simp add: dom_map_of_conv_image_fst)
  also have "\<dots> = {k \<in> set terms. lower lc (strip k) \<noteq> []}"
    by (auto simp: dom_def count_terms_map_of)
  finally show ?thesis .
qed

lemma count_terms_empty_iff:
  "count_terms_in_text lc text terms = [] \<longleftrightarrow> (\<forall>k \<in> set terms. strip k = [])"
proof -
  have "count_terms_in_text lc text terms = [] \<longleftrightarrow> fst ` set (count_terms_in_text lc text terms) = {}"
    by simp
  also have "\<dots> \<longleftrightarrow> (\<forall>k \<in> set terms. strip k = [])"
    unfolding count_terms_keys by (auto simp: lower_empty_iff)
  finally show ?thesis .
qed

lemma dict_of_keys_tied:
  assumes "distinct (map fst d)"
  shows "dict_of_keys d (sort (map fst (filter (\<lambda>(k, v). v = M) d))) []
           = Inr (map (\<lambda>k. (k, M)) (sort (map fst (filter (\<lambda>(k, v). v = M) d))))"
proof -
  let ?ks = "sort (map fst (filter (\<lambda>(k, v). v = M) d))"
  have d: "distinct ?ks"
    using assms by (simp add: distinct_map_filter)
  have s: "set ?ks \<subseteq> fst ` set d" by auto
  have v: "the (map_of d k) = M" if "k \<in> set ?ks" for k
  proof -
    from that have "(k, M) \<in> set d" by auto
    with assms have "map_of d k = Some M" by simp
    then show ?thesis by simp
  qed
  have "dict_of_keys d ?ks [] = Inr ([] @ map (\<lambda>k. (k, the (map_of d k))) ?ks)"
    using d s by (intro dict_of_keys_eq) auto
  also have "map (\<lambda>k. (k, the (map_of d k))) ?ks = map (\<lambda>k. (k, M)) ?ks"
    using v by (intro map_cong) auto
  finally show ?thesis by simp
qed

lemma py_max_values: "d \<noteq> [] \<Longrightarrow> py_max (map snd d) = Inr (Max (snd ` set d))"
  by (simp add: py_max_eq)

lemma findall_plain_empty_iff: "findall_plain s = [] \<longleftrightarrow> (\<forall>c \<in> set s. \<not> alnum c)"
  by (induction s rule: findall_plain.induct) auto

lemma filter_max_nonempty:
  assumes "d \<noteq> []"
  shows "filter (\<lambda>(k, v). v = Max (snd ` set d)) d \<noteq> []"
proof -
  have "Max (snd ` set d) \<in> snd ` set d"
    using assms by (intro Max_in) auto
  then obtain k where "(k, Max (snd ` set d)) \<in> set d" by auto
  then show ?thesis by (auto simp: filter_empty_conv)
qed

lemma build_result_blank:
  "strip text = [] \<Longrightarrow> build_result lc text terms = Inr (ErrorResult no_chars)"
  by (simp add: build_result_def)

lemma build_result_terms:
  assumes "strip text \<noteq> []" and "\<exists>t \<in> set ts. strip t \<noteq> []"
  shows "build_result lc text (Some ts) = Inr (CountMap (tied_max (count_terms_in_text lc text ts)))"
proof -
  let ?counts = "count_terms_in_text lc text ts"
  from assms(2) have ne: "?counts \<noteq> []" by (simp add: count_terms_empty_iff)
  from assms(2) have br: "ts \<noteq> [] \<and> list_ex (\<lambda>t. strip t \<noteq> []) ts"
    by (auto simp: list_ex_iff)
  show ?thesis
    using assms(1) br ne
    by (simp add: build_result_def truthy_terms_def Let_def py_max_values
        dict_of_keys_tied [OF count_terms_distinct] tied_max_def)
qed

lemma count_top_words_eq:
  "count_top_words lc text =
     Inr (filter (\<lambda>(w, cnt). cnt = Max (snd ` set (Counter (findall_plain (lower lc text)))))
            (Counter (findall_plain (lower lc text))))"
  by (auto simp: count_top_words_def Let_def py_max_values Counter_empty_iff Counter_Nil)

lemma build_result_top:
  assumes "strip text \<noteq> []" and "\<forall>t \<in> set (truthy_terms terms). strip t = []"
  shows "build_result lc text terms =
           (if findall_plain (lower lc text) = [] then Inr (ErrorResult no_chars)
            else Inr (CountMap (tied_max (Counter (findall_plain (lower lc text))))))"
proof -
  let ?c = "Counter (findall_plain (lower lc text))"
  let ?M = "Max (snd ` set ?c)"
  let ?top = "filter (\<lambda>(w, cnt). cnt = ?M) ?c"
  from assms(2) have br: "\<not> (truthy_terms terms \<noteq> [] \<and> list_ex (\<lambda>t. strip t \<noteq> []) (truthy_terms terms))"
    by (auto simp: list_ex_iff)
  have dt: "distinct (map fst ?top)"
    using Counter_distinct by (simp add: distinct_map_filter)
  have "filter (\<lambda>(k, v). v = ?M) ?top = ?top" by (auto intro: filter_True)
  with dict_of_keys_tied [OF dt, of ?M]
  have dk: "dict_of_keys ?top (sort (map fst ?top)) [] = Inr (map (\<lambda>k. (k, ?M)) (sort (map fst ?top)))"
    by simp
  have e: "?top = [] \<longleftrightarrow> findall_plain (lower lc text) = []"
    using filter_max_nonempty [of ?c] by (auto simp: Counter_empty_iff Counter_Nil)
  have "build_result lc text terms =
          (case count_top_words lc text of
             Inl e \<Rightarrow> Inl e
           | Inr top' \<Rightarrow>
               if top' = [] then Inr (ErrorResult no_chars)
               else (let ordered = sort (map fst top') in
                     map_sum id CountMap (dict_of_keys top' ordered [])))"
    by (simp only: build_result_def assms(1) br if_False)
  also have "\<dots> = (if findall_plain (lower lc text) = [] then Inr (ErrorResult no_chars)
                      else Inr (CountMap (tied_max (Counter (findall_plain (lower lc text))))))"
    by (simp add: count_top_words_eq e Let_def dk tied_max_def)
  finally show ?thesis .
qed

lemma tied_max_props:
  assumes "d \<noteq> []" and "distinct (map fst d)"
  shows "tied_max d \<noteq> []"
    and "\<forall>(k, v) \<in> set (tied_max d). v = Max (snd ` set (tied_max d))"
    and "sorted (map fst (tied_max d))"
    and "distinct (map fst (tied_max d))"
    and "set (tied_max d) = {(k, v). (k, v) \<in> set d \<and> v = Max (snd ` set d)}"
proof -
  let ?M = "Max (snd ` set d)"
  let ?ks = "sort (map fst (filter (\<lambda>(k, v). v = ?M) d))"
  have t: "tied_max d = map (\<lambda>k. (k, ?M)) ?ks" by (simp add: tied_max_def Let_def)
  have ne: "?ks \<noteq> []"
    using filter_max_nonempty [OF assms(1)]
    by (metis (no_types, lifting) length_0_conv length_map length_sort)
  show "tied_max d \<noteq> []" using ne by (simp add: t)
  have "snd ` set (tied_max d) = {?M}"
    using ne unfolding t by (cases ?ks) (auto simp: image_iff)
  then show "\<forall>(k, v) \<in> set (tied_max d). v = Max (snd ` set (tied_max d))"
    by (auto simp: t)
  have k: "map fst (tied_max d) = ?ks" by (simp add: t comp_def)
  show "sorted (map fst (tied_max d))" unfolding k by simp
  show "distinct (map fst (tied_max d))"
    unfolding k using assms(2) by (simp add: distinct_map_filter)
  show "set (tied_max d) = {(k, v). (k, v) \<in> set d \<and> v = Max (snd ` set d)}"
    unfolding t by (auto simp: image_iff)
qed

text \<open>\<open>build_result\<close> always returns: neither \<open>max\<close> nor a dictionary lookup raises.\<close>

lemma build_result_returns: "\<exists>r. build_result lc text terms = Inr r"
proof (cases "strip text = []")
  case True
  then show ?thesis by (simp add: build_result_blank)
next
  case nb: False
  show ?thesis
  proof (cases "\<exists>t \<in> set (truthy_terms terms). strip t \<noteq> []")
    case True
    then obtain ts where "terms = Some ts" "\<exists>t \<in> set ts. strip t \<noteq> []"
      by (cases terms) (auto simp: truthy_terms_def)
    with build_result_terms [OF nb, of ts lc] show ?thesis by simp
  next
    case False
    then have "\<forall>t \<in> set (truthy_terms terms). strip t = []" by simp
    from build_result_top [OF nb this, of lc] show ?thesis by simp
  qed
qed

section \<open>The phrase pattern counts the standalone occurrences\<close>

lemma lookahead_ok_drop:
  "k \<le> length txt \<Longrightarrow> lookahead_ok (drop k txt) \<longleftrightarrow> k = length txt \<or> isspace (txt ! k)"
proof (cases "drop k txt")
  case Nil
  then show "k \<le> length txt \<Longrightarrow> ?thesis" by (simp add: lookahead_ok_def)
next
  case (Cons a list)
  then have "txt ! k = a" by (rule nth_via_drop)
  moreover from Cons have "k < length txt"
    by (metis drop_eq_Nil list.distinct(1) not_le)
  ultimately show ?thesis using Cons by (simp add: lookahead_ok_def)
qed

lemma standalone_occurs: "standalone_at term txt i \<longleftrightarrow> occurs_at term True txt i"
proof (cases "i + length term \<le> length txt")
  case True
  from lookahead_ok_drop [OF True] show ?thesis
    by (auto simp: standalone_at_def occurs_at_def)
next
  case False
  then show ?thesis by (simp add: standalone_at_def occurs_at_def)
qed

lemma occurs_at_Nil: "term \<noteq> [] \<Longrightarrow> \<not> occurs_at term b [] i"
  by (simp add: occurs_at_def)

lemma occurs_at_bound: "occurs_at term b txt i \<Longrightarrow> i \<le> length txt"
  by (simp add: occurs_at_def)

lemma occurs_at_zero:
  "occurs_at term b txt 0 \<longleftrightarrow>
     b \<and> take (length term) txt = term \<and> lookahead_ok (drop (length term) txt)"
proof -
  have "length term \<le> length txt" if "take (length term) txt = term"
  proof -
    from that have "length (take (length term) txt) = length term" by simp
    then show ?thesis by (simp add: min_def split: if_splits)
  qed
  then show ?thesis by (auto simp: occurs_at_def)
qed

lemma occurs_at_shift:
  assumes "k \<le> length txt"
  shows "occurs_at term b txt (j + k) \<longleftrightarrow>
           occurs_at term (if k = 0 then b else isspace (txt ! (k - 1))) (drop k txt) j"
proof -
  have 1: "j + k + length term \<le> length txt \<longleftrightarrow> j + length term \<le> length (drop k txt)"
    using assms by auto
  have 2: "drop (j + k) txt = drop j (drop k txt)"
    by (simp add: add.commute)
  have 3: "drop (j + k + length term) txt = drop (j + length term) (drop k txt)"
    by (simp add: add.commute add.left_commute)
  have 4: "(if j + k = 0 then b else isspace (txt ! (j + k - 1))) \<longleftrightarrow>
           (if j = 0 then (if k = 0 then b else isspace (txt ! (k - 1)))
            else isspace (drop k txt ! (j - 1)))"
    if "j + length term \<le> length (drop k txt)"
    using assms that by (cases j) (auto simp: add.commute)
  show ?thesis
    unfolding occurs_at_def 1 2 3 using 4 by auto
qed

lemma non_overlapping_subset: "non_overlapping n S \<Longrightarrow> T \<subseteq> S \<Longrightarrow> non_overlapping n T"
  by (auto simp: non_overlapping_def)

lemma shift_down_card:
  assumes "finite (S :: nat set)" and "\<forall>i \<in> S. k \<le> i"
  shows "card ((\<lambda>i. i - k) ` S) = card S"
proof (rule card_image)
  show "inj_on (\<lambda>i. i - k) S"
  proof (rule inj_onI)
    fix x y assume "x \<in> S" "y \<in> S" and e: "x - k = y - k"
    with assms(2) have "k \<le> x" "k \<le> y" by auto
    with e show "x = y" by arith
  qed
qed

lemma shift_down_non_overlapping:
  assumes "non_overlapping n S" and "\<forall>i \<in> S. k \<le> i"
  shows "non_overlapping n ((\<lambda>i. i - k) ` S)"
  unfolding non_overlapping_def
proof (intro ballI impI)
  fix i j
  assume "i \<in> (\<lambda>i. i - k) ` S" "j \<in> (\<lambda>i. i - k) ` S" "i < j"
  then obtain i' j' where "i' \<in> S" "j' \<in> S" "i = i' - k" "j = j' - k" by auto
  with assms \<open>i < j\<close> have "i' < j'" "i' + n \<le> j'" "k \<le> i'" "k \<le> j'"
    by (auto simp: non_overlapping_def)
  with \<open>i = i' - k\<close> \<open>j = j' - k\<close> show "i + n \<le> j" by simp
qed

lemma phrase_matches_upper:
  "tm \<noteq> [] \<Longrightarrow> finite S \<Longrightarrow> \<forall>i \<in> S. occurs_at tm b txt i \<Longrightarrow>
   non_overlapping (length tm) S \<Longrightarrow>
   card S \<le> length (findall_phrase_pattern tm b txt)"
proof (induction tm b "txt" arbitrary: S rule: findall_phrase_pattern.induct)
  case (1 tm b)
  then have "S = {}" by (auto simp: occurs_at_Nil)
  then show ?case by simp
next
  case (2 tm b c cs)
  let ?n = "length tm"
  let ?txt = "c # cs"
  let ?m = "b \<and> take ?n ?txt = tm \<and> lookahead_ok (drop ?n ?txt)"
  from "2.prems"(1) have n: "0 < ?n" by simp
  show ?case
  proof (cases ?m)
    case True
    then have "length (take ?n ?txt) = ?n" by simp
    then have len: "?n \<le> length ?txt"
      by (simp add: min_def split: if_splits)
    have dr: "drop ?n ?txt = drop (?n - 1) cs"
      using n by (cases ?n) auto
    have la: "?txt ! (?n - 1) = last tm"
    proof -
      have "last tm = tm ! (?n - 1)"
        using "2.prems"(1) by (simp add: last_conv_nth)
      also have "\<dots> = take ?n ?txt ! (?n - 1)" using True by simp
      also have "\<dots> = ?txt ! (?n - 1)" using n by simp
      finally show ?thesis by simp
    qed
    let ?S1 = "{i \<in> S. i < ?n}"
    let ?S2 = "{i \<in> S. ?n \<le> i}"
    let ?S2' = "(\<lambda>i. i - ?n) ` ?S2"
    have S: "S = ?S1 \<union> ?S2" by auto
    have fin: "finite ?S1" "finite ?S2" using "2.prems"(2) by auto
    have "\<forall>i \<in> ?S1. \<forall>j \<in> ?S1. i = j"
    proof (intro ballI)
      fix i j assume "i \<in> ?S1" "j \<in> ?S1"
      then have ij: "i \<in> S" "j \<in> S" "i < ?n" "j < ?n" by auto
      from "2.prems"(4) ij(1,2) have "i < j \<longrightarrow> i + ?n \<le> j" "j < i \<longrightarrow> j + ?n \<le> i"
        by (auto simp: non_overlapping_def)
      with ij(3,4) show "i = j" by arith
    qed
    then have c1: "card ?S1 \<le> 1"
      using fin(1) by (simp add: card_le_Suc0_iff_eq)
    have c2: "card ?S2' = card ?S2"
      using fin(2) by (intro shift_down_card) auto
    have "non_overlapping ?n ?S2"
      using "2.prems"(4) by (rule non_overlapping_subset) auto
    then have no: "non_overlapping ?n ?S2'"
      by (rule shift_down_non_overlapping) auto
    have oc: "\<forall>j \<in> ?S2'. occurs_at tm (isspace (last tm)) (drop (?n - 1) cs) j"
    proof
      fix j assume "j \<in> ?S2'"
      then obtain i where i: "i \<in> S" "?n \<le> i" "j = i - ?n" by auto
      with "2.prems"(3) have "occurs_at tm b ?txt (j + ?n)" by simp
      with occurs_at_shift [OF len, of tm b j] n la dr
      show "occurs_at tm (isspace (last tm)) (drop (?n - 1) cs) j" by simp
    qed
    have "card ?S2' \<le> length (findall_phrase_pattern tm (isspace (last tm)) (drop (?n - 1) cs))"
      using True "2.prems"(1) fin(2) oc no by (intro "2.IH"(1)) auto
    moreover have "card S \<le> card ?S1 + card ?S2"
      by (subst S) (rule card_Un_le)
    ultimately show ?thesis using True c1 c2 by simp
  next
    case False
    have z: "0 \<notin> S"
    proof
      assume "0 \<in> S"
      with "2.prems"(3) have "occurs_at tm b ?txt 0" by blast
      with False show False by (simp add: occurs_at_zero)
    qed
    let ?S' = "(\<lambda>i. i - 1) ` S"
    have ge: "\<forall>i \<in> S. 1 \<le> i"
      using z by (metis One_nat_def Suc_leI neq0_conv)
    have c: "card ?S' = card S"
      using "2.prems"(2) ge by (intro shift_down_card) auto
    have no: "non_overlapping ?n ?S'"
      using "2.prems"(4) ge by (intro shift_down_non_overlapping) auto
    have oc: "\<forall>j \<in> ?S'. occurs_at tm (isspace c) cs j"
    proof
      fix j assume "j \<in> ?S'"
      then obtain i where i: "i \<in> S" "j = i - 1" by auto
      with ge have e: "i = j + 1" by auto
      from i(1) "2.prems"(3) have "occurs_at tm b ?txt i" by blast
      then have "occurs_at tm b ?txt (j + 1)" unfolding e .
      with occurs_at_shift [of 1 ?txt tm b j] show "occurs_at tm (isspace c) cs j" by simp
    qed
    have "card ?S' \<le> length (findall_phrase_pattern tm (isspace c) cs)"
      using False "2.prems"(1,2) oc no by (intro "2.IH"(2)) auto
    moreover have "findall_phrase_pattern tm b (c # cs) = findall_phrase_pattern tm (isspace c) cs"
      by (simp only: findall_phrase_pattern.simps False if_False)
    ultimately show ?thesis using c by simp
  qed
qed

lemma phrase_matches_lower:
  "tm \<noteq> [] \<Longrightarrow>
   \<exists>S. finite S \<and> (\<forall>i \<in> S. occurs_at tm b txt i) \<and> non_overlapping (length tm) S \<and>
       card S = length (findall_phrase_pattern tm b txt)"
proof (induction tm b "txt" rule: findall_phrase_pattern.induct)
  case (1 tm b)
  have "finite ({} :: nat set) \<and> (\<forall>i \<in> {}. occurs_at tm b [] i) \<and>
        non_overlapping (length tm) {} \<and> card ({} :: nat set) = length (findall_phrase_pattern tm b [])"
    by (simp add: non_overlapping_def)
  then show ?case by blast
next
  case (2 tm b c cs)
  let ?n = "length tm"
  let ?txt = "c # cs"
  let ?m = "b \<and> take ?n ?txt = tm \<and> lookahead_ok (drop ?n ?txt)"
  from "2.prems" have n: "0 < ?n" by simp
  show ?case
  proof (cases ?m)
    case True
    then have "length (take ?n ?txt) = ?n" by simp
    then have len: "?n \<le> length ?txt"
      by (simp add: min_def split: if_splits)
    have dr: "drop ?n ?txt = drop (?n - 1) cs"
      using n by (cases ?n) auto
    have la: "?txt ! (?n - 1) = last tm"
    proof -
      have "last tm = tm ! (?n - 1)"
        using "2.prems" by (simp add: last_conv_nth)
      also have "\<dots> = take ?n ?txt ! (?n - 1)" using True by simp
      also have "\<dots> = ?txt ! (?n - 1)" using n by simp
      finally show ?thesis by simp
    qed
    from "2.IH"(1) [OF True "2.prems"] obtain S'
      where S': "finite S'"
        "\<forall>i \<in> S'. occurs_at tm (isspace (last tm)) (drop (?n - 1) cs) i"
        "non_overlapping ?n S'"
        "card S' = length (findall_phrase_pattern tm (isspace (last tm)) (drop (?n - 1) cs))"
      by blast
    let ?S = "insert 0 ((\<lambda>j. j + ?n) ` S')"
    have f: "finite ?S" using S'(1) by simp
    have o: "\<forall>i \<in> ?S. occurs_at tm b ?txt i"
    proof
      fix i assume "i \<in> ?S"
      then consider "i = 0" | j where "j \<in> S'" "i = j + ?n" by auto
      then show "occurs_at tm b ?txt i"
      proof cases
        case 1
        with True show ?thesis by (simp add: occurs_at_zero)
      next
        case 2
        from 2(1) S'(2) have "occurs_at tm (isspace (last tm)) (drop (?n - 1) cs) j" by blast
        with occurs_at_shift [OF len, of tm b j] n la dr
        have "occurs_at tm b ?txt (j + ?n)" by simp
        then show ?thesis unfolding 2(2) .
      qed
    qed
    have no: "non_overlapping ?n ?S"
      unfolding non_overlapping_def
    proof (intro ballI impI)
      fix i j assume i: "i \<in> ?S" and j: "j \<in> ?S" and lt: "i < j"
      from j lt obtain j' where j': "j' \<in> S'" "j = j' + ?n" by auto
      show "i + ?n \<le> j"
      proof (cases "i = 0")
        case True
        with j' show ?thesis by simp
      next
        case False
        with i obtain i' where i': "i' \<in> S'" "i = i' + ?n" by auto
        with j' lt have "i' < j'" by simp
        with S'(3) i'(1) j'(1) have "i' + ?n \<le> j'" by (simp add: non_overlapping_def)
        with i' j' show ?thesis by simp
      qed
    qed
    have "0 \<notin> (\<lambda>j. j + ?n) ` S'" using n by auto
    moreover have "card ((\<lambda>j. j + ?n) ` S') = card S'"
      by (intro card_image) (simp add: inj_on_def)
    ultimately have "card ?S = Suc (card S')"
      using S'(1) by simp
    moreover have "findall_phrase_pattern tm b ?txt
        = tm # findall_phrase_pattern tm (isspace (last tm)) (drop (?n - 1) cs)"
      using True by simp
    ultimately have "card ?S = length (findall_phrase_pattern tm b ?txt)"
      using S'(4) by simp
    with f o no show ?thesis by blast
  next
    case False
    from "2.IH"(2) [OF False "2.prems"] obtain S'
      where S': "finite S'" "\<forall>i \<in> S'. occurs_at tm (isspace c) cs i"
        "non_overlapping ?n S'"
        "card S' = length (findall_phrase_pattern tm (isspace c) cs)"
      by blast
    let ?S = "(\<lambda>j. j + 1) ` S'"
    have f: "finite ?S" using S'(1) by simp
    have o: "\<forall>i \<in> ?S. occurs_at tm b ?txt i"
    proof
      fix i assume "i \<in> ?S"
      then obtain j where j: "j \<in> S'" "i = j + 1" by auto
      from j(1) S'(2) have "occurs_at tm (isspace c) cs j" by blast
      with occurs_at_shift [of 1 ?txt tm b j] have "occurs_at tm b ?txt (j + 1)" by simp
      then show "occurs_at tm b ?txt i" unfolding j(2) .
    qed
    have no: "non_overlapping ?n ?S"
      unfolding non_overlapping_def
    proof (intro ballI impI)
      fix i j assume "i \<in> ?S" "j \<in> ?S" and lt: "i < j"
      then obtain i' j' where ij: "i' \<in> S'" "i = i' + 1" "j' \<in> S'" "j = j' + 1" by auto
      with lt have "i' < j'" by simp
      with S'(3) ij(1,3) have "i' + ?n \<le> j'" by (simp add: non_overlapping_def)
      with ij show "i + ?n \<le> j" by simp
    qed
    have "card ?S = card S'"
      by (intro card_image) (simp add: inj_on_def)
    moreover have "findall_phrase_pattern tm b ?txt = findall_phrase_pattern tm (isspace c) cs"
      by (simp only: findall_phrase_pattern.simps False if_False)
    ultimately have "card ?S = length (findall_phrase_pattern tm b ?txt)"
      using S'(4) by simp
    with f o no show ?thesis by blast
  qed
qed

lemma phrase_count_spec_eq:
  assumes "tm \<noteq> []"
  shows "phrase_count_spec tm txt = length (findall_phrase_pattern tm True txt)"
proof -
  let ?O = "{i. standalone_at tm txt i}"
  let ?F = "{S. S \<subseteq> ?O \<and> non_overlapping (length tm) S}"
  let ?N = "length (findall_phrase_pattern tm True txt)"
  have "?O \<subseteq> {..length txt}"
    by (auto simp: standalone_at_def)
  then have fO: "finite ?O" by (rule finite_subset) simp
  have "?F \<subseteq> Pow ?O" by auto
  then have "finite ?F" using fO by (metis finite_Pow_iff finite_subset)
  then have fin: "finite (card ` ?F)" by simp
  have up: "y \<le> ?N" if "y \<in> card ` ?F" for y
  proof -
    from that obtain S where S: "S \<subseteq> ?O" "non_overlapping (length tm) S" "y = card S" by auto
    from S(1) fO have "finite S" by (rule finite_subset)
    moreover from S(1) have "\<forall>i \<in> S. occurs_at tm True txt i"
      by (auto simp: standalone_occurs)
    ultimately show ?thesis
      using phrase_matches_upper [OF assms _ _ S(2), of True "txt"] S(3) by simp
  qed
  from phrase_matches_lower [OF assms, of True "txt"] obtain S
    where "finite S" "\<forall>i \<in> S. occurs_at tm True txt i" "non_overlapping (length tm) S"
      "card S = ?N" by blast
  then have "S \<in> ?F" by (auto simp: standalone_occurs)
  with \<open>card S = ?N\<close> have mem: "?N \<in> card ` ?F" by (metis imageI)
  show ?thesis
    unfolding phrase_count_spec_def using fin up mem by (intro Max_eqI) auto
qed

section \<open>Properties of the token patterns\<close>

lemma punct_not_alnum: "punct c \<Longrightarrow> \<not> alnum c"
  by (simp add: punct_def)

lemma alnum_not_punct: "alnum c \<Longrightarrow> \<not> punct c"
  by (simp add: punct_def)

lemma space_not_punct: "isspace c \<Longrightarrow> \<not> punct c"
  by (simp add: punct_def)

lemma takeWhile_block:
  assumes "\<forall>c \<in> set w. P c" and "s = [] \<or> \<not> P (hd s)"
  shows "takeWhile P (w @ s) = w" and "dropWhile P (w @ s) = s"
proof -
  from assms(2) have "takeWhile P s = []" "dropWhile P s = s" by (cases s; simp)+
  with assms(1) show "takeWhile P (w @ s) = w" "dropWhile P (w @ s) = s"
    by (simp_all add: takeWhile_append2 dropWhile_append2)
qed

lemma match_group_stop: "s = [] \<or> \<not> punct (hd s) \<Longrightarrow> match_group s = ([], s)"
  by (subst match_group.simps) (cases s; simp)

lemma match_group_step:
  assumes "p \<noteq> []" "\<forall>c \<in> set p. punct c" "b \<noteq> []" "\<forall>c \<in> set b. alnum c"
    and "s = [] \<or> \<not> alnum (hd s)"
  shows "match_group (p @ b @ s) = (p @ b @ fst (match_group s), snd (match_group s))"
proof -
  from assms(3,4) have hb: "alnum (hd (b @ s))" "b @ s \<noteq> []" by (cases b; simp)+
  then have "b @ s = [] \<or> \<not> punct (hd (b @ s))" by (simp add: alnum_not_punct)
  from takeWhile_block [OF assms(2) this]
  have 1: "takeWhile punct (p @ b @ s) = p" "dropWhile punct (p @ b @ s) = b @ s" .
  from takeWhile_block [OF assms(4,5)]
  have 2: "takeWhile alnum (b @ s) = b" "dropWhile alnum (b @ s) = s" .
  show ?thesis
    using assms(1) hb
    by (subst match_group.simps) (simp add: 1 2 Let_def split: prod.splits)
qed

lemma findall_token_pattern_block:
  assumes "a \<noteq> []" "\<forall>c \<in> set a. alnum c" and "s = [] \<or> \<not> alnum (hd s)"
  shows "findall_token_pattern (a @ s)
           = (a @ fst (match_group s)) # findall_token_pattern (snd (match_group s))"
proof -
  from assms(1) obtain c cs where a: "a = c # cs" by (cases a) auto
  with assms(2) have c: "alnum c" "\<forall>c \<in> set cs. alnum c" by auto
  from takeWhile_block [OF c(2) assms(3)]
  have "takeWhile alnum (cs @ s) = cs" "dropWhile alnum (cs @ s) = s" .
  with c(1) show ?thesis by (simp add: a split: prod.splits)
qed

lemma findall_token_pattern_compound:
  assumes "a \<noteq> []" "\<forall>c \<in> set a. alnum c" "p \<noteq> []" "\<forall>c \<in> set p. punct c"
    and "b \<noteq> []" "\<forall>c \<in> set b. alnum c" and "s = [] \<or> isspace (hd s)"
  shows "findall_token_pattern (a @ p @ b @ s) = (a @ p @ b) # findall_token_pattern s"
proof -
  from assms(7) have s1: "s = [] \<or> \<not> alnum (hd s)" and s2: "s = [] \<or> \<not> punct (hd s)"
    using alnum_not_space space_not_punct by blast+
  from assms(3,4) have "p @ b @ s = [] \<or> \<not> alnum (hd (p @ b @ s))"
    by (cases p) (simp_all add: punct_not_alnum)
  from findall_token_pattern_block [OF assms(1,2) this]
  show ?thesis
    by (simp add: match_group_step [OF assms(3,4,5,6) s1] match_group_stop [OF s2])
qed

lemma findall_token_pattern_word:
  assumes "a \<noteq> []" "\<forall>c \<in> set a. alnum c" and "s = [] \<or> isspace (hd s)"
  shows "findall_token_pattern (a @ s) = a # findall_token_pattern s"
proof -
  from assms(3) have s1: "s = [] \<or> \<not> alnum (hd s)" and s2: "s = [] \<or> \<not> punct (hd s)"
    using alnum_not_space space_not_punct by blast+
  from findall_token_pattern_block [OF assms(1,2) s1] show ?thesis
    by (simp add: match_group_stop [OF s2])
qed

lemma match_group_chars: "\<forall>c \<in> set (fst (match_group s)). \<not> isspace c"
proof (induction s rule: match_group.induct)
  case (1 s)
  show ?case
  proof (cases "takeWhile punct s \<noteq> [] \<and> dropWhile punct s \<noteq> []
                  \<and> alnum (hd (dropWhile punct s))")
    case True
    have "\<forall>c \<in> set (takeWhile punct s). \<not> isspace c"
      by (auto dest: set_takeWhileD simp: punct_def)
    moreover have "\<forall>c \<in> set (takeWhile alnum (dropWhile punct s)). \<not> isspace c"
      by (auto dest!: set_takeWhileD alnum_not_space)
    moreover have "\<forall>c \<in> set (fst (match_group (dropWhile alnum (dropWhile punct s)))). \<not> isspace c"
      using True "1.IH" by simp
    ultimately show ?thesis
      using True by (subst match_group.simps) (auto simp: Let_def split: prod.splits)
  next
    case False
    then show ?thesis by (subst match_group.simps) (auto simp: Let_def)
  qed
qed

lemma token_no_space: "t \<in> set (findall_token_pattern s) \<Longrightarrow> c \<in> set t \<Longrightarrow> \<not> isspace c"
proof (induction s rule: findall_token_pattern.induct)
  case 1
  then show ?case by simp
next
  case (2 d ds)
  show ?case
  proof (cases "alnum d")
    case True
    obtain m rest where mr: "match_group (dropWhile alnum ds) = (m, rest)"
      by (cases "match_group (dropWhile alnum ds)") auto
    from "2.prems"(1) True mr
    consider "t = d # takeWhile alnum ds @ m" | "t \<in> set (findall_token_pattern rest)"
      by auto
    then show ?thesis
    proof cases
      case 1
      have "\<forall>c \<in> set m. \<not> isspace c"
        using match_group_chars [of "dropWhile alnum ds"] mr by simp
      moreover have "\<forall>c \<in> set (takeWhile alnum ds). \<not> isspace c"
        by (auto dest!: set_takeWhileD alnum_not_space)
      ultimately show ?thesis
        using 1 "2.prems"(2) True alnum_not_space by auto
    next
      case 2
      from "2.IH"(1) [OF True mr [symmetric] 2 "2.prems"(2)] show ?thesis .
    qed
  next
    case False
    with "2.prems" "2.IH"(2) show ?thesis by simp
  qed
qed

lemma findall_plain_run:
  assumes "w \<noteq> []" "\<forall>c \<in> set w. alnum c" and "s = [] \<or> \<not> alnum (hd s)"
  shows "findall_plain (w @ s) = w # findall_plain s"
proof -
  from assms(1) obtain c cs where w: "w = c # cs" by (cases w) auto
  with assms(2) have c: "alnum c" "\<forall>c \<in> set cs. alnum c" by auto
  from takeWhile_block [OF c(2) assms(3)]
  have "takeWhile alnum (cs @ s) = cs" "dropWhile alnum (cs @ s) = s" .
  with c(1) show ?thesis by (simp add: w)
qed

section \<open>Further properties used by the claims\<close>

lemma terms_loop_append:
  "terms_loop lc lt cn (xs @ ys) out = terms_loop lc lt cn ys (terms_loop lc lt cn xs out)"
  by (induction xs arbitrary: out) (simp_all add: Let_def)

lemma count_terms_single:
  "lower lc (strip original) \<noteq> [] \<Longrightarrow>
   count_terms_in_text lc text [original] =
     [(original, if 32 \<in> set (lower lc (strip original))
                 then length (findall_phrase_pattern (lower lc (strip original)) True (lower lc text))
                 else count_list (findall_token_pattern (lower lc text)) (lower lc (strip original)))]"
  by (simp add: count_terms_in_text_def Let_def Counter_get)

lemma count_terms_duplicate:
  assumes "original \<in> set terms"
  shows "count_terms_in_text lc text (terms @ [original]) = count_terms_in_text lc text terms"
proof (cases "lower lc (strip original) = []")
  case True
  then show ?thesis
    by (simp add: count_terms_in_text_def Let_def terms_loop_append)
next
  case False
  let ?d = "count_terms_in_text lc text terms"
  let ?v = "if 32 \<in> set (lower lc (strip original))
            then length (findall_phrase_pattern (lower lc (strip original)) True (lower lc text))
            else count_list (findall_token_pattern (lower lc text)) (lower lc (strip original))"
  have "map_of ?d original = Some ?v"
    using assms False by (simp add: count_terms_map_of)
  then have "dict_set original ?v ?d = ?d" by (rule dict_set_same)
  moreover have "count_terms_in_text lc text (terms @ [original]) = dict_set original ?v ?d"
    using False by (simp add: count_terms_in_text_def Let_def terms_loop_append Counter_get)
  ultimately show ?thesis by simp
qed

lemma sort_remdups_keys:
  assumes "distinct xs" and "set xs = set ys"
  shows "sort xs = sort (remdups ys)"
proof (rule sorted_distinct_set_unique)
  show "sorted (sort xs)" "sorted (sort (remdups ys))" by simp_all
  show "distinct (sort xs)" using assms(1) by simp
  show "distinct (sort (remdups ys))" by simp
  show "set (sort xs) = set (sort (remdups ys))" using assms(2) by simp
qed

lemma split_on_runs:
  "split_on sep cs =
     takeWhile (\<lambda>c. \<not> sep c) cs #
       (case dropWhile (\<lambda>c. \<not> sep c) cs of [] \<Rightarrow> [] | d # r \<Rightarrow> split_on sep r)"
  by (induction cs) simp_all

lemma findall_plain_spec: "findall_plain s = plain_tokens_spec s"
proof (induction s rule: findall_plain.induct)
  case 1
  show ?case by (simp add: plain_tokens_spec_def)
next
  case (2 c cs)
  show ?case
  proof (cases "alnum c")
    case True
    let ?r = "dropWhile alnum cs"
    have sp: "split_on (\<lambda>c. \<not> alnum c) cs =
        takeWhile alnum cs # (case ?r of [] \<Rightarrow> [] | d # r \<Rightarrow> split_on (\<lambda>c. \<not> alnum c) r)"
      using split_on_runs [of "\<lambda>c. \<not> alnum c" cs] by simp
    have "filter (\<lambda>w. w \<noteq> []) (case ?r of [] \<Rightarrow> [] | d # r \<Rightarrow> split_on (\<lambda>c. \<not> alnum c) r)
            = plain_tokens_spec ?r"
    proof (cases ?r)
      case Nil
      show ?thesis unfolding Nil by (simp add: plain_tokens_spec_def)
    next
      case (Cons d r)
      then have "\<not> alnum d" by (metis hd_dropWhile list.distinct(1) list.sel(1))
      with Cons show ?thesis by (simp add: plain_tokens_spec_def)
    qed
    with True "2.IH"(1) show ?thesis
      by (simp add: plain_tokens_spec_def sp)
  next
    case False
    with "2.IH"(2) show ?thesis by (simp add: plain_tokens_spec_def)
  qed
qed

lemma Counter_values: "snd ` set (Counter toks) = count_list toks ` set toks"
  by (auto simp: Counter_set image_iff)

text \<open>The definitions to unfold when an example is evaluated.\<close>

lemmas ev = cps_def lower_def lower_char_def hangul_def alnum_def isspace_def punct_def strip_def
  lookahead_ok_def dict_get_def counter_add_def Counter_def count_terms_in_text_def
  count_top_words_def build_result_def truthy_terms_def no_chars_def Let_def match_group.simps

section \<open>The token pattern gives the compound tokens of the specification\<close>

lemma takeWhile_stop:
  "rest = [] \<or> \<not> P (hd rest) \<Longrightarrow>
   takeWhile P (x @ rest) = takeWhile P x \<and> dropWhile P (x @ rest) = dropWhile P x @ rest"
  by (induction x) (cases rest; simp)+

lemma findall_token_pattern_skip:
  "\<forall>c \<in> set p. \<not> alnum c \<Longrightarrow> findall_token_pattern (p @ s) = findall_token_pattern s"
  by (induction p) simp_all

lemma match_group_chunk:
  assumes "\<forall>c \<in> set x. \<not> isspace c" and "x = [] \<or> \<not> alnum (hd x)"
    and "rest = [] \<or> isspace (hd rest)"
  shows "\<exists>m t. match_group (x @ rest) = (m, t @ rest) \<and> x = m @ t \<and>
           (\<forall>c \<in> set t. punct c) \<and> (m = [] \<or> alnum (last m))"
  using assms(1,2)
proof (induction "length x" arbitrary: x rule: less_induct)
  case less
  from assms(3) have rp: "rest = [] \<or> \<not> punct (hd rest)" and ra: "rest = [] \<or> \<not> alnum (hd rest)"
    using space_not_punct alnum_not_space by blast+
  let ?p = "takeWhile punct x"
  let ?y = "dropWhile punct x"
  have tp: "takeWhile punct (x @ rest) = ?p" "dropWhile punct (x @ rest) = ?y @ rest"
    using takeWhile_stop [of rest punct x] rp by simp_all
  show ?case
  proof (cases "?y = []")
    case True
    then have allp: "\<forall>c \<in> set x. punct c" by (simp add: dropWhile_eq_Nil_conv)
    have dy: "dropWhile punct (x @ rest) = rest"
      using tp(2) unfolding True by simp
    have "match_group (x @ rest) = ([], x @ rest)"
      using ra by (subst match_group.simps) (auto simp: dy Let_def)
    with allp show ?thesis by auto
  next
    case False
    then have hy: "\<not> punct (hd ?y)" by (rule hd_dropWhile)
    from False have "hd ?y \<in> set x"
      by (metis hd_in_set set_dropWhileD)
    with less.prems(1) have "\<not> isspace (hd ?y)" by blast
    with hy have ay: "alnum (hd ?y)" by (simp add: punct_def)
    from False ay less.prems(2) have pne: "?p \<noteq> []"
      by (cases x) (auto split: if_splits)
    let ?a = "takeWhile alnum ?y"
    let ?z = "dropWhile alnum ?y"
    have ta: "takeWhile alnum (?y @ rest) = ?a" "dropWhile alnum (?y @ rest) = ?z @ rest"
      using takeWhile_stop [of rest alnum ?y] ra by simp_all
    have ane: "?a \<noteq> []" using False ay by (cases ?y) auto
    have xs: "x = ?p @ ?a @ ?z" by simp
    have "length ?z < length x"
    proof -
      have "length x = length ?p + length ?a + length ?z"
        by (metis xs length_append add.assoc)
      with pne show ?thesis by (cases ?p) auto
    qed
    moreover have "\<forall>c \<in> set ?z. \<not> isspace c"
      using less.prems(1) by (auto dest!: set_dropWhileD)
    moreover have "?z = [] \<or> \<not> alnum (hd ?z)"
      using hd_dropWhile [of alnum ?y] by blast
    ultimately obtain m t where mt: "match_group (?z @ rest) = (m, t @ rest)" "?z = m @ t"
      "\<forall>c \<in> set t. punct c" "m = [] \<or> alnum (last m)"
      using less.hyps [of ?z] by blast
    have hyr: "hd (?y @ rest) = hd ?y" "?y @ rest \<noteq> []" using False by simp_all
    have mg: "match_group (x @ rest) = (?p @ ?a @ m, t @ rest)"
      using pne hyr ay mt(1)
      by (subst match_group.simps) (simp add: tp ta Let_def)
    have "x = (?p @ ?a @ m) @ t" using xs mt(2) by simp
    moreover have "alnum (last (?p @ ?a @ m))"
    proof (cases "m = []")
      case True
      have "last ?a \<in> set ?a" using ane by simp
      then have "alnum (last ?a)" by (auto dest: set_takeWhileD)
      with True ane show ?thesis by simp
    next
      case False
      with mt(4) show ?thesis by simp
    qed
    ultimately show ?thesis using mg mt(3) by blast
  qed
qed

lemma trim_non_alnum_token:
  assumes "tok \<noteq> []" "alnum (hd tok)" "alnum (last tok)"
    and "\<forall>c \<in> set p. \<not> alnum c" "\<forall>c \<in> set t. \<not> alnum c"
  shows "trim_non_alnum (p @ tok @ t) = tok"
proof -
  from assms(1,2) have "tok @ t = [] \<or> \<not> \<not> alnum (hd (tok @ t))" by simp
  from takeWhile_block(2) [of p "\<lambda>c. \<not> alnum c" "tok @ t", OF assms(4) this]
  have 1: "dropWhile (\<lambda>c. \<not> alnum c) (p @ tok @ t) = tok @ t" .
  from assms(1,3) have "rev tok = [] \<or> \<not> \<not> alnum (hd (rev tok))"
    by (simp add: hd_rev)
  from takeWhile_block(2) [of "rev t" "\<lambda>c. \<not> alnum c" "rev tok", OF _ this] assms(5)
  have 2: "dropWhile (\<lambda>c. \<not> alnum c) (rev t @ rev tok) = rev tok" by simp
  show ?thesis by (simp add: trim_non_alnum_def 1 2)
qed

lemma trim_non_alnum_none: "\<forall>c \<in> set p. \<not> alnum c \<Longrightarrow> trim_non_alnum p = []"
  by (auto simp: trim_non_alnum_def dropWhile_eq_Nil_conv dest: set_dropWhileD)

lemma findall_token_pattern_chunk:
  assumes "\<forall>c \<in> set ch. \<not> isspace c" and "rest = [] \<or> isspace (hd rest)"
  shows "findall_token_pattern (ch @ rest) =
           (if trim_non_alnum ch = [] then [] else [trim_non_alnum ch]) @ findall_token_pattern rest"
proof -
  from assms(2) have ra: "rest = [] \<or> \<not> alnum (hd rest)"
    using alnum_not_space by blast
  let ?p = "takeWhile (\<lambda>c. \<not> alnum c) ch"
  let ?y = "dropWhile (\<lambda>c. \<not> alnum c) ch"
  have pn: "\<forall>c \<in> set ?p. \<not> alnum c" by (auto dest: set_takeWhileD)
  have ch: "ch = ?p @ ?y" by simp
  have "ch @ rest = ?p @ (?y @ rest)"
    by (simp add: append_assoc [symmetric] del: append_assoc)
  then have sk: "findall_token_pattern (ch @ rest) = findall_token_pattern (?y @ rest)"
    using findall_token_pattern_skip [OF pn, of "?y @ rest"] by (simp only:)
  show ?thesis
  proof (cases ?y)
    case Nil
    then have "\<forall>c \<in> set ch. \<not> alnum c" by (simp add: dropWhile_eq_Nil_conv)
    then have "trim_non_alnum ch = []" by (rule trim_non_alnum_none)
    with sk Nil show ?thesis by simp
  next
    case (Cons c cs)
    then have ac: "alnum c" using hd_dropWhile [of "\<lambda>c. \<not> alnum c" ch] by auto
    let ?a = "takeWhile alnum cs"
    let ?x = "dropWhile alnum cs"
    have ta: "takeWhile alnum (cs @ rest) = ?a" "dropWhile alnum (cs @ rest) = ?x @ rest"
      using takeWhile_stop [of rest alnum cs] ra by simp_all
    have "set cs \<subseteq> set ch"
      by (metis Cons set_dropWhileD set_subset_Cons subsetI subset_trans)
    with assms(1) have "\<forall>c \<in> set ?x. \<not> isspace c"
      by (auto dest!: set_dropWhileD)
    moreover have "?x = [] \<or> \<not> alnum (hd ?x)"
      using hd_dropWhile [of alnum cs] by blast
    ultimately obtain m t where mt: "match_group (?x @ rest) = (m, t @ rest)" "?x = m @ t"
      "\<forall>c \<in> set t. punct c" "m = [] \<or> alnum (last m)"
      using match_group_chunk [OF _ _ assms(2), of ?x] by blast
    let ?tok = "c # ?a @ m"
    have tn: "\<forall>c \<in> set t. \<not> alnum c" using mt(3) by (simp add: punct_def)
    have f: "findall_token_pattern (?y @ rest) = ?tok # findall_token_pattern rest"
      using ac mt(1) findall_token_pattern_skip [OF tn, of rest]
      by (simp add: Cons ta)
    have lt: "alnum (last ?tok)"
    proof (cases "m = []")
      case False
      with mt(4) show ?thesis by simp
    next
      case True
      show ?thesis
      proof (cases "?a = []")
        case True
        with \<open>m = []\<close> ac show ?thesis by simp
      next
        case False
        then have "last ?a \<in> set ?a" by simp
        then have "alnum (last ?a)" by (auto dest: set_takeWhileD)
        with False \<open>m = []\<close> show ?thesis by simp
      qed
    qed
    have "cs = ?a @ ?x" by simp
    with mt(2) have "?y = ?tok @ t" using Cons by simp
    with ch have "ch = ?p @ ?tok @ t" by simp
    moreover have "trim_non_alnum (?p @ ?tok @ t) = ?tok"
      using ac lt pn tn by (intro trim_non_alnum_token) simp_all
    ultimately have "trim_non_alnum ch = ?tok" by simp
    with sk f show ?thesis by simp
  qed
qed

lemma findall_token_pattern_spec: "findall_token_pattern s = compound_tokens_spec s"
proof (induction "length s" arbitrary: s rule: less_induct)
  case less
  let ?ch = "takeWhile (\<lambda>c. \<not> isspace c) s"
  let ?rest = "dropWhile (\<lambda>c. \<not> isspace c) s"
  have cn: "\<forall>c \<in> set ?ch. \<not> isspace c" by (auto dest: set_takeWhileD)
  have rs: "?rest = [] \<or> isspace (hd ?rest)"
    using hd_dropWhile [of "\<lambda>c. \<not> isspace c" s] by blast
  have "findall_token_pattern s = findall_token_pattern (?ch @ ?rest)" by simp
  also have "\<dots> = (if trim_non_alnum ?ch = [] then [] else [trim_non_alnum ?ch])
                    @ findall_token_pattern ?rest"
    using cn rs by (rule findall_token_pattern_chunk)
  also have "findall_token_pattern ?rest
               = filter (\<lambda>w. w \<noteq> []) (map trim_non_alnum
                   (case ?rest of [] \<Rightarrow> [] | d # r \<Rightarrow> split_on isspace r))"
  proof (cases ?rest)
    case Nil
    show ?thesis unfolding Nil by simp
  next
    case (Cons d r)
    with rs have d: "isspace d" by simp
    then have "\<not> alnum d" using alnum_not_space by blast
    then have 1: "findall_token_pattern (d # r) = findall_token_pattern r" by simp
    have "length r < length s"
      using length_dropWhile_le [of "\<lambda>c. \<not> isspace c" s] Cons by simp
    from less [OF this] 1 show ?thesis
      unfolding Cons by (simp add: compound_tokens_spec_def)
  qed
  finally have main: "findall_token_pattern s =
      (if trim_non_alnum ?ch = [] then [] else [trim_non_alnum ?ch])
      @ filter (\<lambda>w. w \<noteq> []) (map trim_non_alnum
          (case ?rest of [] \<Rightarrow> [] | d # r \<Rightarrow> split_on isspace r))" .
  have "compound_tokens_spec s =
      (if trim_non_alnum ?ch = [] then [] else [trim_non_alnum ?ch])
      @ filter (\<lambda>w. w \<noteq> []) (map trim_non_alnum
          (case ?rest of [] \<Rightarrow> [] | d # r \<Rightarrow> split_on isspace r))"
    using split_on_runs [of isspace s] by (simp add: compound_tokens_spec_def)
  with main show ?case by simp
qed

section \<open>The claims\<close>

text \<open>
  Claim C1. Whenever \<open>build_result\<close> returns a result that is not the error, the
  returned mapping has at least one key, every value equals the maximum value of the
  mapping (so all values are equal), and the keys are in ascending order (and
  distinct, as dictionary keys are).
\<close>

theorem build_result_invariant:
  assumes "build_result lc text terms = Inr (CountMap m)"
  shows "m \<noteq> [] \<and> (\<forall>(k, v) \<in> set m. v = Max (snd ` set m)) \<and>
         sorted (map fst m) \<and> distinct (map fst m)"
proof -
  have nb: "strip text \<noteq> []"
    using assms build_result_blank [of "text" lc terms] by auto
  have "\<exists>d. d \<noteq> [] \<and> distinct (map fst d) \<and> m = tied_max d"
  proof (cases "\<exists>t \<in> set (truthy_terms terms). strip t \<noteq> []")
    case True
    then obtain ts where ts: "terms = Some ts" and ex: "\<exists>t \<in> set ts. strip t \<noteq> []"
      by (cases terms) (auto simp: truthy_terms_def)
    from ex have "count_terms_in_text lc text ts \<noteq> []"
      by (simp add: count_terms_empty_iff)
    moreover have "m = tied_max (count_terms_in_text lc text ts)"
      using assms build_result_terms [OF nb ex, of lc] ts by simp
    ultimately show ?thesis using count_terms_distinct by blast
  next
    case False
    then have all: "\<forall>t \<in> set (truthy_terms terms). strip t = []" by simp
    from assms build_result_top [OF nb all, of lc]
    have "findall_plain (lower lc text) \<noteq> []"
      and "m = tied_max (Counter (findall_plain (lower lc text)))"
      by (auto split: if_splits)
    then show ?thesis using Counter_distinct Counter_empty_iff by blast
  qed
  then obtain d where "d \<noteq> []" "distinct (map fst d)" "m = tied_max d" by blast
  then show ?thesis using tied_max_props [of d] by simp
qed

theorem build_result_invariant_witness:
  "build_result lc_id (cps ''The quick brown fox'') None
     = Inr (CountMap [(cps ''brown'', 1), (cps ''fox'', 1), (cps ''quick'', 1), (cps ''the'', 1)])
   \<and> sorted (map fst [(cps ''brown'', 1::nat), (cps ''fox'', 1), (cps ''quick'', 1), (cps ''the'', 1)])
   \<and> distinct (map fst [(cps ''brown'', 1::nat), (cps ''fox'', 1), (cps ''quick'', 1), (cps ''the'', 1)])"
proof -
  have e: "build_result lc_id (cps ''The quick brown fox'') None
     = Inr (CountMap [(cps ''brown'', 1), (cps ''fox'', 1), (cps ''quick'', 1), (cps ''the'', 1)])"
    by (simp add: ev)
  from build_result_invariant [OF e] e show ?thesis by blast
qed

text \<open>
  Claim C2. For a text that is not blank and a non-empty term list in which every
  term is blank after trimming, \<open>build_result\<close> is to return the error result, as the
  comment on the error return inside the term branch says (the case where the terms
  are all blank). The source does not get there: the test
  \<open>terms and any(t.strip() for t in terms)\<close> in front of the term branch is false for
  such a list, and the top-words mode answers instead. For the text \<open>"cat cat dog"\<close>
  and the terms \<open>[" "]\<close> the result is \<open>{"cat": 2}\<close>, not the error.
\<close>

theorem blank_terms_failing_input:
  "strip (cps ''cat cat dog'') \<noteq> [] \<and> [cps '' ''] \<noteq> [] \<and> strip (cps '' '') = []
   \<and> count_terms_in_text lc_id (cps ''cat cat dog'') [cps '' ''] = []
   \<and> build_result lc_id (cps ''cat cat dog'') (Some [cps '' '']) = Inr (CountMap [(cps ''cat'', 2)])
   \<and> build_result lc_id (cps ''cat cat dog'') (Some [cps '' '']) \<noteq> Inr (ErrorResult no_chars)"
  by (simp add: ev)

text \<open>
  Claim C3. A word term (no whitespace after trimming and lower-casing) is counted by
  the number of tokens of the compound-token vocabulary that are equal to it. The
  vocabulary is the one of the specification: one token for each piece between
  whitespace that has an alphabet character, the piece without the punctuation at its
  ends. A compound of two alphabet blocks joined by punctuation is one token,
  different from its first block, so it adds nothing to the count of that block as a
  word. For \<open>"hello-world hello"\<close> and the term \<open>"hello"\<close> the result is
  \<open>{"hello": 1}\<close>.
\<close>

theorem word_term_whole_token:
  "(original \<in> set terms \<and> lower lc (strip original) \<noteq> [] \<and>
    (\<forall>c \<in> set (lower lc (strip original)). \<not> isspace c)
      \<longrightarrow> map_of (count_terms_in_text lc text terms) original
            = Some (count_list (findall_token_pattern (lower lc text)) (lower lc (strip original))))
   \<and> findall_token_pattern (lower lc text) = compound_tokens_spec (lower lc text)
   \<and> (a \<noteq> [] \<and> (\<forall>c \<in> set a. alnum c) \<and> p \<noteq> [] \<and> (\<forall>c \<in> set p. punct c) \<and>
      b \<noteq> [] \<and> (\<forall>c \<in> set b. alnum c) \<and> (s = [] \<or> isspace (hd s))
      \<longrightarrow> findall_token_pattern (a @ p @ b @ s) = (a @ p @ b) # findall_token_pattern s
          \<and> a @ p @ b \<noteq> a)
   \<and> build_result lc (cps ''hello-world hello'') (Some [cps ''hello''])
       = Inr (CountMap [(cps ''hello'', 1)])"
proof (intro conjI impI)
  assume h: "original \<in> set terms \<and> lower lc (strip original) \<noteq> [] \<and>
    (\<forall>c \<in> set (lower lc (strip original)). \<not> isspace c)"
  have "isspace 32" by (simp add: isspace_def)
  with h have "32 \<notin> set (lower lc (strip original))" by blast
  with h show "map_of (count_terms_in_text lc text terms) original
            = Some (count_list (findall_token_pattern (lower lc text)) (lower lc (strip original)))"
    by (simp add: count_terms_map_of)
next
  show "findall_token_pattern (lower lc text) = compound_tokens_spec (lower lc text)"
    by (rule findall_token_pattern_spec)
next
  assume "a \<noteq> [] \<and> (\<forall>c \<in> set a. alnum c) \<and> p \<noteq> [] \<and> (\<forall>c \<in> set p. punct c) \<and>
      b \<noteq> [] \<and> (\<forall>c \<in> set b. alnum c) \<and> (s = [] \<or> isspace (hd s))"
  then show "findall_token_pattern (a @ p @ b @ s) = (a @ p @ b) # findall_token_pattern s"
    by (intro findall_token_pattern_compound) auto
next
  assume "a \<noteq> [] \<and> (\<forall>c \<in> set a. alnum c) \<and> p \<noteq> [] \<and> (\<forall>c \<in> set p. punct c) \<and>
      b \<noteq> [] \<and> (\<forall>c \<in> set b. alnum c) \<and> (s = [] \<or> isspace (hd s))"
  then show "a @ p @ b \<noteq> a" by simp
next
  show "build_result lc (cps ''hello-world hello'') (Some [cps ''hello''])
       = Inr (CountMap [(cps ''hello'', 1)])"
    by (simp add: ev)
qed

theorem word_term_whole_token_witness:
  "lower lc_id (strip (cps ''hello'')) \<noteq> []
   \<and> map_of (count_terms_in_text lc_id (cps ''hello-world hello'') [cps ''hello'']) (cps ''hello'')
     = Some (count_list (findall_token_pattern (lower lc_id (cps ''hello-world hello'')))
               (lower lc_id (strip (cps ''hello''))))
   \<and> findall_token_pattern (cps ''hello'' @ cps ''-'' @ cps ''world'' @ cps '' hello'')
       = (cps ''hello'' @ cps ''-'' @ cps ''world'') # findall_token_pattern (cps '' hello'')"
proof -
  have a: "cps ''hello'' \<in> set [cps ''hello'']" by simp
  have b: "lower lc_id (strip (cps ''hello'')) \<noteq> []" by (simp add: ev)
  have c: "\<forall>c \<in> set (lower lc_id (strip (cps ''hello''))). \<not> isspace c" by (simp add: ev)
  have d: "cps ''hello'' \<noteq> [] \<and> (\<forall>c \<in> set (cps ''hello''). alnum c) \<and>
           cps ''-'' \<noteq> [] \<and> (\<forall>c \<in> set (cps ''-''). punct c) \<and>
           cps ''world'' \<noteq> [] \<and> (\<forall>c \<in> set (cps ''world''). alnum c) \<and>
           (cps '' hello'' = [] \<or> isspace (hd (cps '' hello'')))"
    by (simp add: ev)
  from word_term_whole_token [of "cps ''hello''" "[cps ''hello'']" lc_id "cps ''hello-world hello''"
      "cps ''hello''" "cps ''-''" "cps ''world''" "cps '' hello''"] a b c d
  show ?thesis by blast
qed

text \<open>
  Claim C4 says that a term containing whitespace is counted by the standalone
  occurrences of the phrase. The source treats a term as a phrase only when it
  contains the space character (\<open>" " in term\<close>): for the text and the term
  \<open>"new\nyork"\<close> (with a line feed) the phrase has one standalone occurrence, and the
  reported count is \<open>0\<close>.
\<close>

theorem phrase_whitespace_counterexample:
  "isspace 10
   \<and> 10 \<in> set (lower lc_id (strip (cps ''new'' @ [10] @ cps ''york'')))
   \<and> phrase_count_spec (lower lc_id (strip (cps ''new'' @ [10] @ cps ''york'')))
        (lower lc_id (cps ''new'' @ [10] @ cps ''york'')) = 1
   \<and> build_result lc_id (cps ''new'' @ [10] @ cps ''york'') (Some [cps ''new'' @ [10] @ cps ''york''])
       = Inr (CountMap [(cps ''new'' @ [10] @ cps ''york'', 0)])"
proof -
  have l: "lower lc_id (strip (cps ''new'' @ [10] @ cps ''york'')) = cps ''new'' @ [10] @ cps ''york''"
    "lower lc_id (cps ''new'' @ [10] @ cps ''york'') = cps ''new'' @ [10] @ cps ''york''"
    by (simp_all add: ev)
  have "phrase_count_spec (cps ''new'' @ [10] @ cps ''york'') (cps ''new'' @ [10] @ cps ''york'')
          = length (findall_phrase_pattern (cps ''new'' @ [10] @ cps ''york'') True
                      (cps ''new'' @ [10] @ cps ''york''))"
    by (rule phrase_count_spec_eq) (simp add: cps_def)
  also have "\<dots> = 1" by (simp add: ev)
  finally have p: "phrase_count_spec (cps ''new'' @ [10] @ cps ''york'')
     (cps ''new'' @ [10] @ cps ''york'') = 1" .
  have b: "build_result lc_id (cps ''new'' @ [10] @ cps ''york'') (Some [cps ''new'' @ [10] @ cps ''york''])
       = Inr (CountMap [(cps ''new'' @ [10] @ cps ''york'', 0)])"
    by (simp add: ev)
  have "isspace 10" by (simp add: isspace_def)
  moreover have "10 \<in> set (cps ''new'' @ [10] @ cps ''york'')" by simp
  ultimately show ?thesis using p b unfolding l by blast
qed

text \<open>
  Claim C4, amended. For every term whose trimmed and lower-cased form contains a
  space character (U+0020), the reported count is the number of non-overlapping
  occurrences of that exact sequence in the lower-cased text, each preceded by the
  start of the text or a whitespace character and followed by the end of the text or
  a whitespace character. For \<open>"new york city new york"\<close> and the term \<open>"new york"\<close>
  the result is \<open>{"new york": 2}\<close>.
\<close>

theorem phrase_term_count:
  "(original \<in> set terms \<and> 32 \<in> set (lower lc (strip original))
      \<longrightarrow> map_of (count_terms_in_text lc text terms) original
            = Some (phrase_count_spec (lower lc (strip original)) (lower lc text)))
   \<and> build_result lc (cps ''new york city new york'') (Some [cps ''new york''])
       = Inr (CountMap [(cps ''new york'', 2)])"
proof (intro conjI impI)
  assume h: "original \<in> set terms \<and> 32 \<in> set (lower lc (strip original))"
  then have ne: "lower lc (strip original) \<noteq> []" by auto
  with h show "map_of (count_terms_in_text lc text terms) original
            = Some (phrase_count_spec (lower lc (strip original)) (lower lc text))"
    by (simp add: count_terms_map_of phrase_count_spec_eq [OF ne])
next
  show "build_result lc (cps ''new york city new york'') (Some [cps ''new york''])
       = Inr (CountMap [(cps ''new york'', 2)])"
    by (simp add: ev)
qed

theorem phrase_term_count_witness:
  "32 \<in> set (lower lc_id (strip (cps ''new york'')))
   \<and> map_of (count_terms_in_text lc_id (cps ''new york city new york'') [cps ''new york''])
        (cps ''new york'')
      = Some (phrase_count_spec (lower lc_id (strip (cps ''new york'')))
                (lower lc_id (cps ''new york city new york'')))
   \<and> map_of (count_terms_in_text lc_id (cps ''new york city new york'') [cps ''new york''])
        (cps ''new york'') = Some 2"
proof -
  have a: "32 \<in> set (lower lc_id (strip (cps ''new york'')))" by (simp add: ev)
  have b: "cps ''new york'' \<in> set [cps ''new york'']" by simp
  have c: "map_of (count_terms_in_text lc_id (cps ''new york city new york'') [cps ''new york''])
        (cps ''new york'') = Some 2" by (simp add: ev)
  from phrase_term_count [of "cps ''new york''" "[cps ''new york'']" lc_id
      "cps ''new york city new york''"] a b c
  show ?thesis by blast
qed

text \<open>
  Claim C5. For a text with at least one character of the alphabet (ASCII digits,
  ASCII letters, Hangul syllables) and an empty term list, \<open>build_result\<close> returns
  exactly the plain-grammar tokens whose number of occurrences is the maximum over
  all tokens, each with that number. The plain-grammar tokens are the maximal runs of
  alphabet characters of the lower-cased text. For \<open>"cat cat dog"\<close> the result is
  \<open>{"cat": 2}\<close>.
\<close>

theorem top_words_result:
  "((\<exists>c \<in> set text. alnum c) \<and> toks = findall_plain (lower lc text)
      \<longrightarrow> (\<exists>m. build_result lc text (Some []) = Inr (CountMap m)
              \<and> set m = {(w, n). w \<in> set toks \<and> n = count_list toks w
                                  \<and> n = Max (count_list toks ` set toks)}
              \<and> sorted (map fst m) \<and> distinct (map fst m)))
   \<and> findall_plain (lower lc text) = plain_tokens_spec (lower lc text)
   \<and> build_result lc (cps ''cat cat dog'') (Some []) = Inr (CountMap [(cps ''cat'', 2)])"
proof (intro conjI impI)
  assume h: "(\<exists>c \<in> set text. alnum c) \<and> toks = findall_plain (lower lc text)"
  then have nb: "strip text \<noteq> []" by (simp add: strip_alnum)
  from h have "\<exists>d \<in> set (lower lc text). alnum d" by (simp add: lower_alnum)
  with h have ne: "toks \<noteq> []" by (simp add: findall_plain_empty_iff)
  have "\<forall>t \<in> set (truthy_terms (Some [])). strip t = []" by (simp add: truthy_terms_def)
  from build_result_top [OF nb this, of lc] ne h
  have r: "build_result lc text (Some []) = Inr (CountMap (tied_max (Counter toks)))" by simp
  have c: "Counter toks \<noteq> []" "distinct (map fst (Counter toks))"
    using ne by (simp_all add: Counter_empty_iff Counter_distinct)
  have "set (tied_max (Counter toks))
          = {(w, n). w \<in> set toks \<and> n = count_list toks w \<and> n = Max (count_list toks ` set toks)}"
    unfolding tied_max_props(5) [OF c] Counter_values by (auto simp: Counter_set)
  with r tied_max_props(3,4) [OF c]
  show "\<exists>m. build_result lc text (Some []) = Inr (CountMap m)
              \<and> set m = {(w, n). w \<in> set toks \<and> n = count_list toks w
                                  \<and> n = Max (count_list toks ` set toks)}
              \<and> sorted (map fst m) \<and> distinct (map fst m)"
    by blast
next
  show "findall_plain (lower lc text) = plain_tokens_spec (lower lc text)"
    by (rule findall_plain_spec)
next
  show "build_result lc (cps ''cat cat dog'') (Some []) = Inr (CountMap [(cps ''cat'', 2)])"
    by (simp add: ev)
qed

theorem top_words_result_witness:
  "alnum 99 \<and> findall_plain (lower lc_id (cps ''cat cat dog'')) = [cps ''cat'', cps ''cat'', cps ''dog'']
   \<and> (\<exists>m. build_result lc_id (cps ''cat cat dog'') (Some []) = Inr (CountMap m)
          \<and> set m = {(w, n). w \<in> set [cps ''cat'', cps ''cat'', cps ''dog'']
                       \<and> n = count_list [cps ''cat'', cps ''cat'', cps ''dog''] w
                       \<and> n = Max (count_list [cps ''cat'', cps ''cat'', cps ''dog'']
                                    ` set [cps ''cat'', cps ''cat'', cps ''dog''])})"
proof -
  have a: "alnum 99" by (simp add: alnum_def)
  then have b: "\<exists>c \<in> set (cps ''cat cat dog''). alnum c" by (simp add: cps_def)
  have t: "[cps ''cat'', cps ''cat'', cps ''dog''] = findall_plain (lower lc_id (cps ''cat cat dog''))"
    by (simp add: ev)
  from top_words_result [of "cps ''cat cat dog''" "[cps ''cat'', cps ''cat'', cps ''dog'']" lc_id] b t
  have "\<exists>m. build_result lc_id (cps ''cat cat dog'') (Some []) = Inr (CountMap m)
          \<and> set m = {(w, n). w \<in> set [cps ''cat'', cps ''cat'', cps ''dog'']
                       \<and> n = count_list [cps ''cat'', cps ''cat'', cps ''dog''] w
                       \<and> n = Max (count_list [cps ''cat'', cps ''cat'', cps ''dog'']
                                    ` set [cps ''cat'', cps ''cat'', cps ''dog''])}"
    by blast
  with a t show ?thesis by simp
qed

text \<open>
  Claim C6 says that a term is a phrase term exactly when its trimmed and lower-cased
  form contains a whitespace character of any kind. The test of the source is
  \<open>" " in term\<close>: the term \<open>"a\tb"\<close> (with a tab) contains whitespace, the
  standalone-phrase rule finds it once in the text \<open>"a\tb"\<close>, and the source looks it
  up as a word in the compound-token vocabulary, where it is not, and reports \<open>0\<close>.
\<close>

theorem term_classification_counterexample:
  "isspace 9
   \<and> 9 \<in> set (lower lc_id (strip (cps ''a'' @ [9] @ cps ''b'')))
   \<and> length (findall_phrase_pattern (lower lc_id (strip (cps ''a'' @ [9] @ cps ''b''))) True
               (lower lc_id (cps ''a'' @ [9] @ cps ''b''))) = 1
   \<and> count_list (findall_token_pattern (lower lc_id (cps ''a'' @ [9] @ cps ''b'')))
        (lower lc_id (strip (cps ''a'' @ [9] @ cps ''b''))) = 0
   \<and> count_terms_in_text lc_id (cps ''a'' @ [9] @ cps ''b'') [cps ''a'' @ [9] @ cps ''b'']
       = [(cps ''a'' @ [9] @ cps ''b'', 0)]"
  by (simp add: ev)

text \<open>
  Claim C6, amended. A supplied term that is kept (non-empty after trimming and
  lower-casing) is a phrase term, matched by the standalone-phrase rule, exactly when
  its trimmed and lower-cased form contains the space character U+0020; otherwise it
  is a word term, looked up in the compound-token vocabulary. A term without U+0020
  but with another whitespace character is therefore a word term, and its count is
  \<open>0\<close>, since no token contains whitespace.
\<close>

theorem term_classification:
  assumes "original \<in> set terms" and "lower lc (strip original) \<noteq> []"
  shows "map_of (count_terms_in_text lc text terms) original =
           Some (if 32 \<in> set (lower lc (strip original))
                 then length (findall_phrase_pattern (lower lc (strip original)) True (lower lc text))
                 else count_list (findall_token_pattern (lower lc text)) (lower lc (strip original)))
         \<and> (32 \<notin> set (lower lc (strip original)) \<and> (\<exists>c \<in> set (lower lc (strip original)). isspace c)
              \<longrightarrow> map_of (count_terms_in_text lc text terms) original = Some 0)"
proof -
  have 1: "map_of (count_terms_in_text lc text terms) original =
           Some (if 32 \<in> set (lower lc (strip original))
                 then length (findall_phrase_pattern (lower lc (strip original)) True (lower lc text))
                 else count_list (findall_token_pattern (lower lc text)) (lower lc (strip original)))"
    using assms by (simp add: count_terms_map_of)
  have "count_list (findall_token_pattern (lower lc text)) (lower lc (strip original)) = 0"
    if "\<exists>c \<in> set (lower lc (strip original)). isspace c"
    using that token_no_space [of "lower lc (strip original)" "lower lc text"]
    by (auto simp: count_list_0_iff)
  with 1 show ?thesis by simp
qed

theorem term_classification_witness:
  "lower lc_id (strip (cps ''New York'')) \<noteq> []
   \<and> map_of (count_terms_in_text lc_id (cps ''new york city new york'') [cps ''york'', cps ''New York''])
        (cps ''New York'')
       = Some (length (findall_phrase_pattern (cps ''new york'') True (cps ''new york city new york'')))"
proof -
  have a: "cps ''New York'' \<in> set [cps ''york'', cps ''New York'']" by simp
  have b: "lower lc_id (strip (cps ''New York'')) \<noteq> []" by (simp add: ev)
  have c: "lower lc_id (strip (cps ''New York'')) = cps ''new york''"
    "lower lc_id (cps ''new york city new york'') = cps ''new york city new york''"
    by (simp_all add: ev)
  have d: "32 \<in> set (cps ''new york'')" by (simp add: cps_def)
  from term_classification [OF a b, of "cps ''new york city new york''"] b d
  show ?thesis unfolding c by simp
qed

text \<open>
  Claim C7 says that whenever \<open>0\<close> is the maximum count over the kept terms,
  \<open>build_result\<close> returns the kept terms tied at \<open>0\<close> and not the error. The first
  test of \<open>build_result\<close> is on the text alone: for the text \<open>"   "\<close> and the term
  \<open>"x"\<close>, \<open>count_terms_in_text\<close> reports \<open>{"x": 0}\<close>, the maximum is \<open>0\<close>, and
  \<open>build_result\<close> returns the error.
\<close>

theorem absent_word_term_blank_text_counterexample:
  "lower lc_id (strip (cps ''x'')) \<noteq> []
   \<and> lower lc_id (strip (cps ''x'')) \<notin> set (findall_token_pattern (lower lc_id (cps ''   '')))
   \<and> count_terms_in_text lc_id (cps ''   '') [cps ''x''] = [(cps ''x'', 0)]
   \<and> Max (snd ` set (count_terms_in_text lc_id (cps ''   '') [cps ''x''])) = 0
   \<and> build_result lc_id (cps ''   '') (Some [cps ''x'']) = Inr (ErrorResult no_chars)"
  by (simp add: ev)

text \<open>
  Claim C7, amended. A kept word term that is not a token of the compound-token
  vocabulary of the text is reported with count \<open>0\<close>, not left out; and when the text
  is not blank and \<open>0\<close> is the maximum count over the kept terms, \<open>build_result\<close>
  returns all kept terms, each with \<open>0\<close>, in ascending order, not the error.
\<close>

theorem absent_word_term_zero:
  "(original \<in> set terms \<and> lower lc (strip original) \<noteq> [] \<and>
    (\<forall>c \<in> set (lower lc (strip original)). \<not> isspace c) \<and>
    lower lc (strip original) \<notin> set (findall_token_pattern (lower lc text))
      \<longrightarrow> map_of (count_terms_in_text lc text terms) original = Some 0)
   \<and> (strip text \<noteq> [] \<and> (\<exists>t \<in> set ts. lower lc (strip t) \<noteq> []) \<and>
      Max (snd ` set (count_terms_in_text lc text ts)) = 0
      \<longrightarrow> build_result lc text (Some ts)
            = Inr (CountMap (map (\<lambda>k. (k, 0))
                     (sort (remdups (filter (\<lambda>t. lower lc (strip t) \<noteq> []) ts))))))"
proof (intro conjI impI)
  assume h: "original \<in> set terms \<and> lower lc (strip original) \<noteq> [] \<and>
    (\<forall>c \<in> set (lower lc (strip original)). \<not> isspace c) \<and>
    lower lc (strip original) \<notin> set (findall_token_pattern (lower lc text))"
  have "isspace 32" by (simp add: isspace_def)
  with h have "32 \<notin> set (lower lc (strip original))" by blast
  with h show "map_of (count_terms_in_text lc text terms) original = Some 0"
    by (simp add: count_terms_map_of count_list_0_iff)
next
  let ?d = "count_terms_in_text lc text ts"
  assume h: "strip text \<noteq> [] \<and> (\<exists>t \<in> set ts. lower lc (strip t) \<noteq> []) \<and>
      Max (snd ` set ?d) = 0"
  then have ex: "\<exists>t \<in> set ts. strip t \<noteq> []" by (auto simp: lower_empty_iff)
  from h have M: "Max (snd ` set ?d) = 0" by simp
  have "v = 0" if "(k, v) \<in> set ?d" for k v
  proof -
    from that have "v \<in> snd ` set ?d" by (metis imageI snd_conv)
    then have "v \<le> Max (snd ` set ?d)" by (intro Max_ge) auto
    with M show ?thesis by simp
  qed
  then have "filter (\<lambda>(k, v). v = 0) ?d = ?d" by (auto intro: filter_True)
  then have t: "tied_max ?d = map (\<lambda>k. (k, 0)) (sort (map fst ?d))"
    by (simp add: tied_max_def M)
  have "set (map fst ?d) = set (filter (\<lambda>t. lower lc (strip t) \<noteq> []) ts)"
    using count_terms_keys [of lc "text" ts] by auto
  with count_terms_distinct [of lc "text" ts]
  have "sort (map fst ?d) = sort (remdups (filter (\<lambda>t. lower lc (strip t) \<noteq> []) ts))"
    by (rule sort_remdups_keys)
  with t build_result_terms [of "text" ts lc] h ex
  show "build_result lc text (Some ts)
            = Inr (CountMap (map (\<lambda>k. (k, 0))
                     (sort (remdups (filter (\<lambda>t. lower lc (strip t) \<noteq> []) ts)))))"
    by simp
qed

theorem absent_word_term_zero_witness:
  "map_of (count_terms_in_text lc_id (cps ''apple banana'') [cps ''date'', cps '' '', cps ''cherry''])
      (cps ''cherry'') = Some 0
   \<and> build_result lc_id (cps ''apple banana'') (Some [cps ''date'', cps '' '', cps ''cherry''])
       = Inr (CountMap [(cps ''cherry'', 0), (cps ''date'', 0)])"
  using absent_word_term_zero [of "cps ''cherry''" "[cps ''date'', cps '' '', cps ''cherry'']" lc_id
      "cps ''apple banana''" "[cps ''date'', cps '' '', cps ''cherry'']"]
  by (simp add: ev)

text \<open>
  Claim C8. For a text that is empty or only whitespace (nothing is left after
  \<open>strip\<close>), and any terms, \<open>build_result\<close> returns the error result with the
  message U+BB38 U+C790 U+AC00 U+0020 U+C5C6 U+C2B5 U+B2C8 U+B2E4, never a mapping of
  counts.
\<close>

theorem blank_text_error:
  assumes "strip text = []"
  shows "build_result lc text terms = Inr (ErrorResult no_chars)
         \<and> no_chars = [47928, 51088, 44032, 32, 50630, 49845, 45768, 45796]
         \<and> (\<forall>m. build_result lc text terms \<noteq> Inr (CountMap m))"
  using assms by (simp add: build_result_def no_chars_def)

theorem blank_text_error_witness:
  "strip (cps ''   '') = [] \<and> build_result lc_id (cps ''   '') None = Inr (ErrorResult no_chars)"
proof -
  have b: "strip (cps ''   '') = []" by (simp add: ev)
  from blank_text_error [OF b, of lc_id None] b show ?thesis by blast
qed

text \<open>
  Claim C9. The keys of the mapping returned by \<open>count_terms_in_text\<close> are the kept
  terms themselves, as the caller supplied them (neither trimmed nor lower-cased).
  Each key occurs once, and its value is the count that the term alone would get:
  supplying a term a second time leaves the mapping as it is.
\<close>

theorem term_keys_original:
  "fst ` set (count_terms_in_text lc text terms) = {t \<in> set terms. lower lc (strip t) \<noteq> []}
   \<and> distinct (map fst (count_terms_in_text lc text terms))
   \<and> (original \<in> set terms \<and> lower lc (strip original) \<noteq> [] \<longrightarrow>
        (\<exists>v. count_terms_in_text lc text [original] = [(original, v)]
            \<and> map_of (count_terms_in_text lc text terms) original = Some v))
   \<and> (original \<in> set terms \<longrightarrow>
        count_terms_in_text lc text (terms @ [original]) = count_terms_in_text lc text terms)"
  by (simp add: count_terms_keys count_terms_distinct count_terms_single count_terms_map_of
      count_terms_duplicate)

theorem term_keys_original_witness:
  "count_terms_in_text lc_id (cps ''hello hello'') [cps '' Hello '', cps '' Hello '']
     = [(cps '' Hello '', 2)]
   \<and> count_terms_in_text lc_id (cps ''hello hello'') [cps '' Hello '']
     = [(cps '' Hello '', 2)]
   \<and> map_of (count_terms_in_text lc_id (cps ''hello hello'') [cps '' Hello ''])
        (cps '' Hello '') = Some 2"
  using term_keys_original [of lc_id "cps ''hello hello''" "[cps '' Hello '']" "cps '' Hello ''"]
  by (simp add: ev)

text \<open>
  Claim C10. When the term list is non-empty and some term is non-blank after
  stripping, \<open>count_terms_in_text\<close> returns a mapping with at least one entry, so the
  error return for an empty mapping inside the term branch is never taken: for a
  non-blank text the result is a mapping of counts.
\<close>

theorem term_branch_counts_nonempty:
  assumes "ts \<noteq> []" and "\<exists>t \<in> set ts. strip t \<noteq> []"
  shows "count_terms_in_text lc text ts \<noteq> []
         \<and> (strip text \<noteq> [] \<longrightarrow> (\<exists>m. build_result lc text (Some ts) = Inr (CountMap m)))"
  using assms by (simp add: count_terms_empty_iff build_result_terms)

theorem term_branch_counts_nonempty_witness:
  "[cps '' '', cps ''hello''] \<noteq> [] \<and> strip (cps ''hello'') \<noteq> []
   \<and> count_terms_in_text lc_id (cps ''hello-world hello'') [cps '' '', cps ''hello''] \<noteq> []"
proof -
  have a: "[cps '' '', cps ''hello''] \<noteq> []" by simp
  have s: "strip (cps ''hello'') \<noteq> []" by (simp add: ev)
  then have b: "\<exists>t \<in> set [cps '' '', cps ''hello'']. strip t \<noteq> []" by simp
  from term_branch_counts_nonempty [OF a b, of lc_id "cps ''hello-world hello''"] a s
  show ?thesis by blast
qed

end
